theory Spec2Isabelle
  imports Complex_Main "HOL-Library.Sublist"
begin

section \<open>Python values used by the SLCAN driver\<close>

text \<open>
  The driver is \<^verbatim>\<open>uavcan/driver/slcan.py\<close>. The embedding of the init sequence and of
  the receive loop follows the Python 3 branch of the code (\<^verbatim>\<open>py2_compat\<close> is false); the
  embedding of \<^verbatim>\<open>SLCAN.receive\<close>, whose outcome depends on the interpreter, takes the
  interpreter as a parameter. A \<^verbatim>\<open>bytes\<close> object is a list of 8-bit characters, a Python
  \<^verbatim>\<open>int\<close> is an \<open>int\<close>, and every exception that the code can raise is a value of the
  type \<open>exn\<close>.
\<close>

type_synonym bytes = "char list"

datatype exn =
    KeyError int
  | DriverError string
  | TypeError
  | ValueError
  | OverflowError
  | IndexError
  | UnicodeDecodeError
  | BinasciiError
  | QueueFull

definition CR :: char where
  "CR = CHR 0x0D"

definition ACK :: char where
  "ACK = CHR 0x0D"

definition NACK :: char where
  "NACK = CHR 0x07"

definition ACK_TIMEOUT :: rat where
  "ACK_TIMEOUT = 1 / 2"

definition DEFAULT_BITRATE :: int where
  "DEFAULT_BITRATE = 1000000"

text \<open>Decimal rendering of a non-negative number, as \<^verbatim>\<open>'%d'\<close> and \<^verbatim>\<open>'{0:d}'\<close> produce it.\<close>

definition dec_digit :: "nat \<Rightarrow> char" where
  "dec_digit d = char_of (48 + d)"

function py_dec :: "nat \<Rightarrow> string" where
  "py_dec n = (if n < 10 then [dec_digit n] else py_dec (n div 10) @ [dec_digit (n mod 10)])"
  by pat_completeness auto
termination
  by (relation "measure id") auto

declare py_dec.simps [simp del]

section \<open>The serial transport\<close>

text \<open>
  The serial port is an external collaborator. It is a record of operations over a device
  state \<open>'s\<close>: \<open>t_read\<close> is \<^verbatim>\<open>conn.read(1)\<close> under the timeout given (no byte within the
  timeout is \<open>None\<close>), \<open>t_write\<close> is \<^verbatim>\<open>conn.write\<close>, \<open>t_flush\<close> is \<^verbatim>\<open>conn.flush\<close> and
  \<open>t_flushInput\<close> is \<^verbatim>\<open>conn.flushInput\<close>. The connection object carries the device state,
  the \<^verbatim>\<open>timeout\<close> attribute, and the list of everything written through it so far.
\<close>

record 's transport =
  t_read :: "rat \<Rightarrow> 's \<Rightarrow> char option \<times> 's"
  t_write :: "bytes \<Rightarrow> 's \<Rightarrow> 's"
  t_flush :: "'s \<Rightarrow> 's"
  t_flushInput :: "'s \<Rightarrow> 's"

record 's conn =
  dev :: 's
  timeout :: rat
  written :: "bytes list"

definition conn_read :: "'s transport \<Rightarrow> 's conn \<Rightarrow> char option \<times> 's conn" where
  "conn_read T c = (case t_read T (timeout c) (dev c) of (b, d) \<Rightarrow> (b, c\<lparr>dev := d\<rparr>))"

definition conn_write :: "'s transport \<Rightarrow> bytes \<Rightarrow> 's conn \<Rightarrow> 's conn" where
  "conn_write T bs c = c\<lparr>dev := t_write T bs (dev c), written := written c @ [bs]\<rparr>"

definition conn_flush :: "'s transport \<Rightarrow> 's conn \<Rightarrow> 's conn" where
  "conn_flush T c = c\<lparr>dev := t_flush T (dev c)\<rparr>"

definition conn_flushInput :: "'s transport \<Rightarrow> 's conn \<Rightarrow> 's conn" where
  "conn_flushInput T c = c\<lparr>dev := t_flushInput T (dev c)\<rparr>"

section \<open>The adapter handshake\<close>

text \<open>
  \<^verbatim>\<open>_wait_for_ack\<close>: the loop has no bound of its own, so an adapter that keeps sending
  bytes that are neither ACK nor NACK keeps it running; not returning is the value \<open>None\<close>.
\<close>

partial_function (option) wait_for_ack ::
  "'s transport \<Rightarrow> 's conn \<Rightarrow> ((exn + unit) \<times> 's conn) option" where
  "wait_for_ack T c =
     (case conn_read T (c\<lparr>timeout := ACK_TIMEOUT\<rparr>) of
        (None, c') \<Rightarrow> Some (Inl (DriverError ''SLCAN ACK timeout''), c')
      | (Some b, c') \<Rightarrow>
          if b = NACK then Some (Inl (DriverError ''SLCAN NACK in response''), c')
          else if b = ACK then Some (Inr (), c')
          else wait_for_ack T c')"

declare wait_for_ack.simps [code]

text \<open>The dictionary literal of \<^verbatim>\<open>_init_adapter\<close>, in the order of the source.\<close>

definition speed_code :: "int \<rightharpoonup> nat" where
  "speed_code = map_of
     [(1000000, 8), (8000000, 7), (500000, 6), (250000, 5), (125000, 4),
      (100000, 3), (50000, 2), (20000, 1), (10000, 0)]"

definition set_bitrate_command :: "nat \<Rightarrow> bytes" where
  "set_bitrate_command code = ''S'' @ py_dec code @ [CR]"

definition open_channel_command :: bytes where
  "open_channel_command = ''O'' @ [CR]"

definition close_channel_command :: bytes where
  "close_channel_command = ''C'' @ [CR]"

text \<open>
  \<^verbatim>\<open>_init_adapter\<close>. The two \<^verbatim>\<open>time.sleep(0.1)\<close> calls have no effect on the state.
\<close>

definition init_adapter ::
  "'s transport \<Rightarrow> 's conn \<Rightarrow> int option \<Rightarrow> ((exn + unit) \<times> 's conn) option" where
  "init_adapter T c bitrate =
     (let key = (case bitrate of Some b \<Rightarrow> b | None \<Rightarrow> DEFAULT_BITRATE) in
      case speed_code key of
        None \<Rightarrow> Some (Inl (KeyError key), c)
      | Some code \<Rightarrow>
          (let c1 = conn_flushInput T c;
               c2 = conn_flush T (conn_write T (set_bitrate_command code) c1) in
           case wait_for_ack T c2 of
             None \<Rightarrow> None
           | Some (Inl e, c3) \<Rightarrow> Some (Inl e, c3)
           | Some (Inr u, c3) \<Rightarrow>
               (let c4 = conn_flush T (conn_write T open_channel_command c3) in
                case wait_for_ack T c4 of
                  None \<Rightarrow> None
                | Some (Inl e, c5) \<Rightarrow> Some (Inl e, c5)
                | Some (Inr u, c5) \<Rightarrow> Some (Inr (), conn_flushInput T c5))))"

text \<open>\<^verbatim>\<open>_stop_adapter\<close>: the close command is written and flushed, no acknowledgement is read.\<close>

definition stop_adapter :: "'s transport \<Rightarrow> 's conn \<Rightarrow> 's conn" where
  "stop_adapter T c = conn_flush T (conn_write T close_channel_command c)"

text \<open>
  A scripted adapter for concrete runs: the device state is the list of bytes waiting in
  the input buffer, and \<open>reply\<close> gives the bytes the adapter sends back for each command
  written to it.
\<close>

definition script_transport :: "(bytes \<Rightarrow> bytes) \<Rightarrow> bytes transport" where
  "script_transport reply =
     \<lparr> t_read = (\<lambda>tmo s. case s of [] \<Rightarrow> (None, []) | b # r \<Rightarrow> (Some b, r)),
       t_write = (\<lambda>bs s. s @ reply bs),
       t_flush = (\<lambda>s. s),
       t_flushInput = (\<lambda>s. []) \<rparr>"

definition fresh_conn :: "'s \<Rightarrow> 's conn" where
  "fresh_conn d = \<lparr> dev = d, timeout = 0, written = [] \<rparr>"

section \<open>Python sequences\<close>

text \<open>
  Indexing and slicing as Python does them: a negative index counts from the end, an index
  outside the sequence raises \<^verbatim>\<open>IndexError\<close> (\<open>None\<close>), and the bounds of a slice are
  clipped to the sequence.
\<close>

definition py_index :: "'a list \<Rightarrow> int \<Rightarrow> 'a option" where
  "py_index xs i =
     (let n = int (length xs) in
      if 0 \<le> i \<and> i < n then Some (xs ! nat i)
      else if - n \<le> i \<and> i < 0 then Some (xs ! nat (n + i))
      else None)"

definition py_clip :: "int \<Rightarrow> int \<Rightarrow> int" where
  "py_clip n i = (if i < 0 then max 0 (i + n) else min i n)"

definition py_slice :: "'a list \<Rightarrow> int \<Rightarrow> int \<Rightarrow> 'a list" where
  "py_slice xs i j =
     (let n = int (length xs); a = py_clip n i; b = py_clip n j in
      take (nat (b - a)) (drop (nat a) xs))"

definition py_slice_from :: "'a list \<Rightarrow> int \<Rightarrow> 'a list" where
  "py_slice_from xs i = drop (nat (py_clip (int (length xs)) i)) xs"

section \<open>Hexadecimal text\<close>

definition hex_value :: "char \<Rightarrow> nat option" where
  "hex_value c =
     (let n = (of_char c :: nat) in
      if 48 \<le> n \<and> n \<le> 57 then Some (n - 48)
      else if 65 \<le> n \<and> n \<le> 70 then Some (n - 55)
      else if 97 \<le> n \<and> n \<le> 102 then Some (n - 87)
      else None)"

definition py_isspace :: "char \<Rightarrow> bool" where
  "py_isspace c = (let n = (of_char c :: nat) in (9 \<le> n \<and> n \<le> 13) \<or> n = 32)"

definition digit_or_underscore :: "char \<Rightarrow> bool" where
  "digit_or_underscore c = (hex_value c \<noteq> None \<or> c = CHR ''_'')"

fun double_underscore :: "string \<Rightarrow> bool" where
  "double_underscore (a # b # r) = ((a = CHR ''_'' \<and> b = CHR ''_'') \<or> double_underscore (b # r))"
| "double_underscore _ = False"

definition digits_value :: "string \<Rightarrow> int" where
  "digits_value s = foldl (\<lambda>a c. 16 * a + int (the (hex_value c))) 0 (filter (\<lambda>c. c \<noteq> CHR ''_'') s)"

text \<open>
  \<^verbatim>\<open>int(s, 16)\<close> on ASCII text, after CPython's \<^verbatim>\<open>PyLong_FromString\<close>: surrounding white
  space, a sign, the prefix \<^verbatim>\<open>0x\<close> (with one underscore after it) and single underscores
  between digits are accepted; anything else raises \<^verbatim>\<open>ValueError\<close> (\<open>None\<close>).
\<close>

definition py_int16 :: "string \<Rightarrow> int option" where
  "py_int16 s =
     (let s1 = dropWhile py_isspace s;
          neg = (s1 \<noteq> [] \<and> hd s1 = CHR ''-'');
          s2 = (if s1 \<noteq> [] \<and> (hd s1 = CHR ''+'' \<or> hd s1 = CHR ''-'') then tl s1 else s1);
          s3 = (case s2 of
                  a # x # r \<Rightarrow>
                    if a = CHR ''0'' \<and> (x = CHR ''x'' \<or> x = CHR ''X'')
                    then (case r of u # r' \<Rightarrow> if u = CHR ''_'' then r' else r | [] \<Rightarrow> r)
                    else s2
                | _ \<Rightarrow> s2);
          body = takeWhile digit_or_underscore s3;
          rest = dropWhile digit_or_underscore s3
      in
      if s3 \<noteq> [] \<and> hd s3 = CHR ''_'' then None
      else if double_underscore body then None
      else if body \<noteq> [] \<and> last body = CHR ''_'' then None
      else if body = [] then None
      else if dropWhile py_isspace rest \<noteq> [] then None
      else Some ((if neg then - 1 else 1) * digits_value body))"

text \<open>
  \<^verbatim>\<open>bytes.decode()\<close>: strict UTF-8. The result is the list of code points; \<open>None\<close> is
  \<^verbatim>\<open>UnicodeDecodeError\<close> (a stray or missing continuation byte, an overlong form, a
  surrogate, a code point above 0x10FFFF).
\<close>

definition utf8_cont :: "nat \<Rightarrow> nat \<Rightarrow> char \<Rightarrow> bool" where
  "utf8_cont lo hi c = (lo \<le> (of_char c :: nat) \<and> (of_char c :: nat) \<le> hi)"

fun utf8_decode :: "bytes \<Rightarrow> nat list option" where
  "utf8_decode [] = Some []"
| "utf8_decode (c # r) =
     (if (of_char c :: nat) < 0x80 then
        (case utf8_decode r of None \<Rightarrow> None | Some cps \<Rightarrow> Some (of_char c # cps))
      else if 0xC2 \<le> (of_char c :: nat) \<and> (of_char c :: nat) \<le> 0xDF then
        (case r of
           c1 # r1 \<Rightarrow>
             if utf8_cont 0x80 0xBF c1 then
               (case utf8_decode r1 of
                  None \<Rightarrow> None
                | Some cps \<Rightarrow> Some (((of_char c - 0xC0) * 64 + (of_char c1 - 0x80)) # cps))
             else None
         | _ \<Rightarrow> None)
      else if 0xE0 \<le> (of_char c :: nat) \<and> (of_char c :: nat) \<le> 0xEF then
        (case r of
           c1 # c2 # r2 \<Rightarrow>
             if utf8_cont (if of_char c = (0xE0 :: nat) then 0xA0 else 0x80)
                          (if of_char c = (0xED :: nat) then 0x9F else 0xBF) c1
                \<and> utf8_cont 0x80 0xBF c2 then
               (case utf8_decode r2 of
                  None \<Rightarrow> None
                | Some cps \<Rightarrow>
                    Some (((of_char c - 0xE0) * 4096 + (of_char c1 - 0x80) * 64
                           + (of_char c2 - 0x80)) # cps))
             else None
         | _ \<Rightarrow> None)
      else if 0xF0 \<le> (of_char c :: nat) \<and> (of_char c :: nat) \<le> 0xF4 then
        (case r of
           c1 # c2 # c3 # r3 \<Rightarrow>
             if utf8_cont (if of_char c = (0xF0 :: nat) then 0x90 else 0x80)
                          (if of_char c = (0xF4 :: nat) then 0x8F else 0xBF) c1
                \<and> utf8_cont 0x80 0xBF c2 \<and> utf8_cont 0x80 0xBF c3 then
               (case utf8_decode r3 of
                  None \<Rightarrow> None
                | Some cps \<Rightarrow>
                    Some (((of_char c - 0xF0) * 262144 + (of_char c1 - 0x80) * 4096
                           + (of_char c2 - 0x80) * 64 + (of_char c3 - 0x80)) # cps))
             else None
         | _ \<Rightarrow> None)
      else None)"

text \<open>
  The two properties of a code point that \<^verbatim>\<open>int\<close> looks at in text that is not pure
  ASCII, from the character database of CPython 3.11 (Unicode 14.0): being white space,
  and the value as a decimal digit. The decimal digits come in runs of ten, each run
  starting with its zero.
\<close>

definition py_unicode_isspace :: "nat \<Rightarrow> bool" where
  "py_unicode_isspace cp =
     (cp \<in> set [0x09, 0x0A, 0x0B, 0x0C, 0x0D, 0x1C, 0x1D, 0x1E, 0x1F, 0x20, 0x85, 0xA0,
                 0x1680, 0x2000, 0x2001, 0x2002, 0x2003, 0x2004, 0x2005, 0x2006, 0x2007,
                 0x2008, 0x2009, 0x200A, 0x2028, 0x2029, 0x202F, 0x205F, 0x3000])"

definition decimal_digit_zeros :: "nat list" where
  "decimal_digit_zeros =
     [0x30, 0x660, 0x6F0, 0x7C0, 0x966, 0x9E6, 0xA66, 0xAE6, 0xB66, 0xBE6, 0xC66, 0xCE6,
      0xD66, 0xDE6, 0xE50, 0xED0, 0xF20, 0x1040, 0x1090, 0x17E0, 0x1810, 0x1946, 0x19D0,
      0x1A80, 0x1A90, 0x1B50, 0x1BB0, 0x1C40, 0x1C50, 0xA620, 0xA8D0, 0xA900, 0xA9D0,
      0xA9F0, 0xAA50, 0xABF0, 0xFF10, 0x104A0, 0x10D30, 0x11066, 0x110F0, 0x11136,
      0x111D0, 0x112F0, 0x11450, 0x114D0, 0x11650, 0x116C0, 0x11730, 0x118E0, 0x11950,
      0x11C50, 0x11D50, 0x11DA0, 0x16A60, 0x16AC0, 0x16B50, 0x1D7CE, 0x1D7D8, 0x1D7E2,
      0x1D7EC, 0x1D7F6, 0x1E140, 0x1E2F0, 0x1E950, 0x1FBF0]"

definition py_unicode_todecimal :: "nat \<Rightarrow> nat option" where
  "py_unicode_todecimal cp =
     (case filter (\<lambda>z. z \<le> cp \<and> cp < z + 10) decimal_digit_zeros of
        [] \<Rightarrow> None
      | z # zs \<Rightarrow> Some (cp - z))"

text \<open>
  What \<^verbatim>\<open>int\<close> does with text before it parses it: pure ASCII text is taken as it is;
  otherwise every white space becomes a blank and every decimal digit its ASCII digit,
  and the first code point from 127 on that is neither becomes a question mark that ends
  the text.
\<close>

fun transform_decimal_and_space :: "nat list \<Rightarrow> string" where
  "transform_decimal_and_space [] = []"
| "transform_decimal_and_space (cp # r) =
     (if cp < 127 then char_of cp # transform_decimal_and_space r
      else if py_unicode_isspace cp then CHR '' '' # transform_decimal_and_space r
      else (case py_unicode_todecimal cp of
              None \<Rightarrow> ''?''
            | Some d \<Rightarrow> char_of (48 + d) # transform_decimal_and_space r))"

definition py_int16_text :: "nat list \<Rightarrow> int option" where
  "py_int16_text cps =
     (if \<forall>cp \<in> set cps. cp < 128 then py_int16 (map char_of cps)
      else py_int16 (transform_decimal_and_space cps))"

text \<open>\<^verbatim>\<open>int(b.decode(), 16)\<close>; \<open>None\<close> is \<^verbatim>\<open>UnicodeDecodeError\<close> or \<^verbatim>\<open>ValueError\<close>.\<close>

definition py_int16_decoded :: "bytes \<Rightarrow> int option" where
  "py_int16_decoded b =
     (case utf8_decode b of None \<Rightarrow> None | Some cps \<Rightarrow> py_int16_text cps)"

text \<open>\<^verbatim>\<open>binascii.a2b_hex\<close> and \<^verbatim>\<open>binascii.b2a_hex\<close>.\<close>

fun a2b_hex :: "bytes \<Rightarrow> bytes option" where
  "a2b_hex [] = Some []"
| "a2b_hex [a] = None"
| "a2b_hex (a # b # r) =
     (case (hex_value a, hex_value b, a2b_hex r) of
        (Some h, Some l, Some bs) \<Rightarrow> Some (char_of (16 * h + l) # bs)
      | _ \<Rightarrow> None)"

definition hex_lower :: "nat \<Rightarrow> char" where
  "hex_lower d = ''0123456789abcdef'' ! d"

definition hex_upper :: "nat \<Rightarrow> char" where
  "hex_upper d = ''0123456789ABCDEF'' ! d"

fun b2a_hex :: "bytes \<Rightarrow> bytes" where
  "b2a_hex [] = []"
| "b2a_hex (c # r) = hex_lower (of_char c div 16) # hex_lower (of_char c mod 16) # b2a_hex r"

text \<open>\<^verbatim>\<open>'%0wX' % n\<close>: upper-case hexadecimal, padded with zeros to the width, the sign first.\<close>

function py_hex_upper :: "nat \<Rightarrow> string" where
  "py_hex_upper n = (if n < 16 then [hex_upper n] else py_hex_upper (n div 16) @ [hex_upper (n mod 16)])"
  by pat_completeness auto
termination
  by (relation "measure id") auto

declare py_hex_upper.simps [simp del]

definition py_format_0X :: "nat \<Rightarrow> int \<Rightarrow> string" where
  "py_format_0X w n =
     (let ds = py_hex_upper (nat \<bar>n\<bar>);
          sg = (if n < 0 then ''-'' else [])
      in sg @ replicate (w - length sg - length ds) (CHR ''0'') @ ds)"

section \<open>CAN frames and the frame codec\<close>

text \<open>
  \<^verbatim>\<open>CANFrame\<close> comes from \<^verbatim>\<open>uavcan/driver/common.py\<close>; the driver uses its identifier, its
  payload and its extended flag. A received frame gets its two host timestamps from the
  hardware timestamp through the external estimator, or from the local clocks when the
  adapter sent no timestamp; the record keeps the hardware timestamp (the counter of the
  adapter, in milliseconds) instead of the two host timestamps.
\<close>

record CANFrame =
  frame_id :: int
  data :: bytes
  extended :: bool
  ts_hardware :: "int option"

text \<open>\<^verbatim>\<open>_send_frame\<close>: the line written to the adapter.\<close>

definition send_frame_line :: "CANFrame \<Rightarrow> bytes" where
  "send_frame_line frame =
     ((if extended frame then ''T'' @ py_format_0X 8 (frame_id frame)
       else ''t'' @ py_format_0X 3 (frame_id frame))
      @ py_dec (length (data frame))
      @ b2a_hex (data frame)
      @ [CR])"

definition send_frame :: "'s transport \<Rightarrow> 's conn \<Rightarrow> CANFrame \<Rightarrow> 's conn" where
  "send_frame T c frame = conn_flush T (conn_write T (send_frame_line frame) c)"

text \<open>What travels on the two queues.\<close>

datatype ipc =
    IpcFrame CANFrame
  | IpcFailure exn
  | IpcText string

definition IPC_SIGNAL_INIT_OK :: ipc where
  "IPC_SIGNAL_INIT_OK = IpcText ''init_ok''"

definition IPC_COMMAND_STOP :: ipc where
  "IPC_COMMAND_STOP = IpcText ''stop''"

definition RX_QUEUE_SIZE :: nat where
  "RX_QUEUE_SIZE = 100000"

definition TX_QUEUE_SIZE :: nat where
  "TX_QUEUE_SIZE = 1000"

text \<open>\<^verbatim>\<open>Queue.put_nowait\<close> on a queue of the capacity given: a full queue raises.\<close>

definition put_nowait :: "nat \<Rightarrow> ipc list \<Rightarrow> ipc \<Rightarrow> exn + ipc list" where
  "put_nowait cap q x = (if length q < cap then Inr (q @ [x]) else Inl QueueFull)"

text \<open>
  The inner loops of \<^verbatim>\<open>_rx_thread\<close>. \<open>find_marker\<close> is the search for the next \<^verbatim>\<open>T\<close> or
  \<^verbatim>\<open>t\<close>; \<open>parse_fragment\<close> is the body of the inner \<^verbatim>\<open>try\<close>, with \<open>NeedMore\<close> for the
  \<^verbatim>\<open>break\<close> statements and \<open>Malformed p\<close> for an exception raised while the position was
  \<open>p\<close>.
\<close>

function find_marker :: "bytes \<Rightarrow> int \<Rightarrow> int option" where
  "find_marker buf pos =
     (if pos < int (length buf) then
        (case py_index buf pos of
           None \<Rightarrow> None
         | Some b \<Rightarrow> if b \<notin> set ''Tt'' then find_marker buf (pos + 1) else Some pos)
      else Some pos)"
  by pat_completeness auto
termination
  by (relation "measure (\<lambda>(buf, pos). nat (int (length buf) - pos))") auto

declare find_marker.simps [simp del]

datatype parse_result =
    NeedMore
  | Malformed int
  | Parsed CANFrame int

definition parse_fragment :: "bytes \<Rightarrow> int \<Rightarrow> parse_result" where
  "parse_fragment buf pos =
     (case py_index buf pos of
        None \<Rightarrow> Malformed pos
      | Some marker \<Rightarrow>
          let id_len = (if marker = CHR ''T'' then 8 else 3);
              available_length = int (length buf) - pos
          in
          if available_length < id_len + 2 then NeedMore
          else
            (case py_int16_decoded (py_slice buf (pos + 1) (pos + 1 + id_len)) of
               None \<Rightarrow> Malformed pos
             | Some packet_id \<Rightarrow>
                 (case py_index buf (pos + 1 + id_len) of
                    None \<Rightarrow> Malformed pos
                  | Some len_byte \<Rightarrow>
                      let packet_len = int (of_char len_byte) - 48 in
                      if packet_len > 8 then Malformed pos
                      else
                        let total_length = 2 + id_len + packet_len * 2 + 1 in
                        if available_length < total_length then NeedMore
                        else
                          (case py_index buf (pos + total_length - 1) of
                             None \<Rightarrow> Malformed pos
                           | Some term_byte \<Rightarrow>
                               let with_timestamp = (term_byte \<in> set ''0123456789ABCDEF'');
                                   total_length = (if with_timestamp then total_length + 3
                                                   else total_length)
                               in
                               if with_timestamp \<and> available_length < total_length then NeedMore
                               else
                                 (case a2b_hex (py_slice buf (pos + 2 + id_len)
                                                  (pos + 2 + id_len + packet_len * 2)) of
                                    None \<Rightarrow> Malformed pos
                                  | Some packet_data \<Rightarrow>
                                      let pos' = pos + total_length in
                                      if with_timestamp then
                                        (case py_int16 (py_slice buf (pos' - 4) pos') of
                                           None \<Rightarrow> Malformed pos'
                                         | Some ts \<Rightarrow>
                                             Parsed \<lparr>frame_id = packet_id, data = packet_data,
                                                     extended = (id_len = 8),
                                                     ts_hardware = Some ts\<rparr> pos')
                                      else
                                        Parsed \<lparr>frame_id = packet_id, data = packet_data,
                                                extended = (id_len = 8),
                                                ts_hardware = None\<rparr> pos')))))"

text \<open>
  One round of the \<^verbatim>\<open>while True\<close> loop: the loop either ends (at a position, or with an
  exception that leaves the inner \<^verbatim>\<open>try\<close>), or goes on at a new position with a frame
  possibly added to the inbound queue. \<open>rx_scan\<close> is the loop; it need not end, and not
  ending is \<open>None\<close>.
\<close>

datatype scan_outcome =
    Scanned int "ipc list"
  | Raised exn "ipc list"

datatype scan_step =
    Stop scan_outcome
  | Continue int "ipc list"

definition rx_scan_step :: "bytes \<Rightarrow> int \<Rightarrow> ipc list \<Rightarrow> scan_step" where
  "rx_scan_step buf pos q =
     (case find_marker buf pos of
        None \<Rightarrow> Stop (Raised IndexError q)
      | Some p \<Rightarrow>
          if p \<ge> int (length buf) then Stop (Scanned p q)
          else
            (case parse_fragment buf p of
               NeedMore \<Rightarrow> Stop (Scanned p q)
             | Malformed e \<Rightarrow> Continue (e + 1) q
             | Parsed frame p' \<Rightarrow>
                 (case put_nowait RX_QUEUE_SIZE q (IpcFrame frame) of
                    Inl ex \<Rightarrow> Stop (Raised ex q)
                  | Inr q' \<Rightarrow> Continue p' q')))"

partial_function (option) rx_scan :: "bytes \<Rightarrow> int \<Rightarrow> ipc list \<Rightarrow> scan_outcome option" where
  "rx_scan buf pos q =
     (case rx_scan_step buf pos q of
        Stop out \<Rightarrow> Some out
      | Continue pos' q' \<Rightarrow> rx_scan buf pos' q')"

declare rx_scan.simps [code]

text \<open>
  One round of the outer loop of \<^verbatim>\<open>_rx_thread\<close> for the bytes that \<^verbatim>\<open>conn.read\<close> returned:
  the result is the buffer kept for the next round and the inbound queue. An exception
  empties the buffer and is put on the queue, unless the queue is full.
\<close>

definition rx_iteration :: "bytes \<Rightarrow> ipc list \<Rightarrow> bytes \<Rightarrow> (bytes \<times> ipc list) option" where
  "rx_iteration buf q chunk =
     (let buf = buf @ chunk in
      case rx_scan buf 0 q of
        None \<Rightarrow> None
      | Some (Scanned pos q') \<Rightarrow> Some (py_slice_from buf pos, q')
      | Some (Raised ex q') \<Rightarrow>
          Some ([], case put_nowait RX_QUEUE_SIZE q' (IpcFailure ex) of
                      Inl ex' \<Rightarrow> q'
                    | Inr q'' \<Rightarrow> q''))"

text \<open>The rounds of the outer loop for a sequence of reads.\<close>

fun rx_feed :: "bytes \<Rightarrow> ipc list \<Rightarrow> bytes list \<Rightarrow> (bytes \<times> ipc list) option" where
  "rx_feed buf q [] = Some (buf, q)"
| "rx_feed buf q (chunk # chunks) =
     (case rx_iteration buf q chunk of
        None \<Rightarrow> None
      | Some (buf', q') \<Rightarrow> rx_feed buf' q' chunks)"

text \<open>The invariant of a CAN frame, as the data model states it.\<close>

definition valid_frame :: "CANFrame \<Rightarrow> bool" where
  "valid_frame f =
     (length (data f) \<le> 8 \<and> 0 \<le> frame_id f
      \<and> frame_id f < (if extended f then 2 ^ 29 else 2 ^ 11))"

text \<open>A frame as the receive loop publishes it when the adapter sent no timestamp.\<close>

abbreviation (input) recv :: "CANFrame \<Rightarrow> ipc" where
  "recv f \<equiv> IpcFrame (f\<lparr>ts_hardware := None\<rparr>)"

text \<open>
  A line of the wire grammar that carries no timestamp, and the frame it stands for: the
  marker, the identifier in hexadecimal digits (3 or 8 of them), the length digit, two
  hexadecimal digits for each payload byte, and the line terminator.
\<close>

definition wire_line :: "bytes \<Rightarrow> CANFrame \<Rightarrow> bool" where
  "wire_line l f =
     (\<exists>idd pay.
        l = (if extended f then CHR ''T'' else CHR ''t'') # idd
              @ dec_digit (length (data f)) # pay @ [CR]
        \<and> int (length idd) = (if extended f then 8 else 3)
        \<and> (\<forall>c \<in> set idd. hex_value c \<noteq> None)
        \<and> digits_value idd = frame_id f
        \<and> length (data f) \<le> 8
        \<and> a2b_hex pay = Some (data f)
        \<and> ts_hardware f = None)"

section \<open>The I/O process and the driver facade\<close>

definition IO_PROCESS_INIT_TIMEOUT :: rat where
  "IO_PROCESS_INIT_TIMEOUT = 5"

text \<open>
  \<^verbatim>\<open>_io_process\<close> up to the readiness signal: the result of the init sequence, the connection
  afterwards, and what the process has put on the inbound queue. When the init sequence
  raises, the \<^verbatim>\<open>finally\<close> block stops the adapter and the exception ends the process; the
  receive thread has not been started and nothing has been put on the queue.
\<close>

definition io_process_start ::
  "'s transport \<Rightarrow> 's conn \<Rightarrow> int option \<Rightarrow> ((exn + unit) \<times> 's conn \<times> ipc list) option" where
  "io_process_start T c bitrate =
     (case init_adapter T c bitrate of
        None \<Rightarrow> None
      | Some (Inl e, c') \<Rightarrow> Some (Inl e, stop_adapter T c', [])
      | Some (Inr u, c') \<Rightarrow> Some (Inr (), c', [IPC_SIGNAL_INIT_OK]))"

text \<open>
  The wait loop of \<^verbatim>\<open>SLCAN.__init__\<close>. Each round is one
  \<^verbatim>\<open>self._rx_queue.get(timeout=IO_PROCESS_INIT_TIMEOUT)\<close> followed by one reading of
  \<^verbatim>\<open>time.monotonic()\<close>. A round is given by what the \<^verbatim>\<open>get\<close> returned (\<open>None\<close> when it
  raised \<^verbatim>\<open>queue.Empty\<close>) and by the clock reading after it; both come from outside the
  loop. The loop ends with the readiness signal, or it raises at the first clock reading
  beyond the deadline, after putting the stop command on the outbound queue, which is
  still empty then. The result is the exception with the clock reading at which it was
  raised, if any, and the outbound queue; \<open>None\<close> says that the loop is still waiting after
  the rounds given.
\<close>

fun init_wait ::
  "(ipc option \<times> rat) list \<Rightarrow> rat \<Rightarrow> (((exn \<times> rat) + unit) \<times> ipc list) option" where
  "init_wait [] deadline = None"
| "init_wait ((got, now) # rounds) deadline =
     (if got = Some IPC_SIGNAL_INIT_OK then Some (Inr (), [])
      else if now > deadline then
        Some (Inl (DriverError ''IO process did not confirm initialization'', now),
              [IPC_COMMAND_STOP])
      else init_wait rounds deadline)"

text \<open>
  The rounds seen on an inbound queue that holds the messages \<open>msgs\<close> and gets no other
  message, for the clock readings given: the messages in their order, then
  \<^verbatim>\<open>queue.Empty\<close> every time.
\<close>

fun rx_gets :: "ipc list \<Rightarrow> rat list \<Rightarrow> (ipc option \<times> rat) list" where
  "rx_gets msgs [] = []"
| "rx_gets [] (t # ts) = (None, t) # rx_gets [] ts"
| "rx_gets (x # msgs) (t # ts) = (Some x, t) # rx_gets msgs ts"

definition check_alive :: "bool \<Rightarrow> exn + unit" where
  "check_alive alive = (if \<not> alive then Inl (DriverError ''IO process is dead :('') else Inr ())"

text \<open>
  \<^verbatim>\<open>SLCAN.__init__\<close> together with the I/O process it starts. \<open>start\<close> is the reading of
  the monotonic clock from which the deadline is computed, \<open>clock\<close> are the readings
  taken after each \<^verbatim>\<open>get\<close>. The inbound queue holds what the I/O process has put on it
  up to the readiness signal; an I/O process that was ended by an exception is not alive.
  An exception comes with the clock reading at which the wait loop raised it, or with
  \<open>None\<close> when it is raised by \<^verbatim>\<open>_check_alive\<close> after the loop.
\<close>

definition SLCAN_init ::
  "'s transport \<Rightarrow> 's conn \<Rightarrow> int option \<Rightarrow> rat \<Rightarrow> rat list
     \<Rightarrow> (((exn \<times> rat option) + unit) \<times> ipc list) option" where
  "SLCAN_init T c bitrate start clock =
     (let started = io_process_start T c bitrate;
          published = (case started of None \<Rightarrow> [] | Some (r, c', msgs) \<Rightarrow> msgs);
          alive = (case started of Some (Inl e, c', msgs) \<Rightarrow> False | _ \<Rightarrow> True);
          deadline = start + IO_PROCESS_INIT_TIMEOUT
      in
      case init_wait (rx_gets published clock) deadline of
        None \<Rightarrow> None
      | Some (Inl (e, now), txq) \<Rightarrow> Some (Inl (e, Some now), txq)
      | Some (Inr u, txq) \<Rightarrow>
          (case check_alive alive of
             Inl e \<Rightarrow> Some (Inl (e, None), txq)
           | Inr u \<Rightarrow> Some (Inr (), txq)))"

text \<open>A number given as the timeout: a finite value, an infinity or not-a-number.\<close>

datatype py_number = Number rat | PlusInf | MinusInf | NaN

text \<open>
  The interpreter that runs the driver. The module is written for Python 2 and Python 3
  (\<^verbatim>\<open>py2_compat\<close> is \<^verbatim>\<open>sys.version_info[0] < 3\<close>). \<open>wait_refused\<close> says which timeouts
  the wait behind \<^verbatim>\<open>multiprocessing.Queue.get\<close> refuses, and with which exception; this
  differs between interpreters and platforms.
\<close>

record interpreter =
  py2_compat :: bool
  wait_refused :: "py_number \<Rightarrow> exn option"

text \<open>
  CPython 3.11 on Linux: not-a-number raises \<^verbatim>\<open>ValueError\<close>; plus infinity and every
  timeout above 2147483.647 seconds raise \<^verbatim>\<open>OverflowError\<close>.
\<close>

definition cpython3 :: interpreter where
  "cpython3 =
     \<lparr>py2_compat = False,
      wait_refused = (\<lambda>t. case t of
                         NaN \<Rightarrow> Some ValueError
                       | PlusInf \<Rightarrow> Some OverflowError
                       | MinusInf \<Rightarrow> None
                       | Number x \<Rightarrow> if x > 2147483647 / 1000 then Some OverflowError else None)\<rparr>"

text \<open>
  \<^verbatim>\<open>max(timeout, 0.001)\<close>: the second argument replaces the first when it is greater.
  Python 3 does not compare \<^verbatim>\<open>None\<close> with a number and raises \<^verbatim>\<open>TypeError\<close>; in Python 2
  \<^verbatim>\<open>None\<close> is smaller than every number. Nothing is greater than not-a-number.
\<close>

definition py_max_timeout :: "interpreter \<Rightarrow> py_number option \<Rightarrow> exn + py_number" where
  "py_max_timeout R tmo =
     (case tmo of
        None \<Rightarrow> (if py2_compat R then Inr (Number (1 / 1000)) else Inl TypeError)
      | Some (Number t) \<Rightarrow> (if 1 / 1000 > t then Inr (Number (1 / 1000)) else Inr (Number t))
      | Some PlusInf \<Rightarrow> Inr PlusInf
      | Some MinusInf \<Rightarrow> Inr (Number (1 / 1000))
      | Some NaN \<Rightarrow> Inr NaN)"

text \<open>
  \<^verbatim>\<open>self._rx_queue.get(timeout=timeout)\<close>. \<open>rxq\<close> is what the queue holds during the call;
  \<open>Inr None\<close> is \<^verbatim>\<open>queue.Empty\<close>. A timeout that the interpreter refuses raises before
  anything is taken from the queue.
\<close>

definition queue_get :: "interpreter \<Rightarrow> py_number \<Rightarrow> ipc list \<Rightarrow> (exn + ipc option) \<times> ipc list" where
  "queue_get R t rxq =
     (case wait_refused R t of
        Some e \<Rightarrow> (Inl e, rxq)
      | None \<Rightarrow> (case rxq of [] \<Rightarrow> (Inr None, rxq) | obj # rest \<Rightarrow> (Inr (Some obj), rest)))"

text \<open>
  \<^verbatim>\<open>SLCAN.receive\<close>. The \<^verbatim>\<open>try\<close> around the queue wait catches \<^verbatim>\<open>queue.Empty\<close> only.
  \<open>rx_hook\<close> is \<^verbatim>\<open>self._rx_hook\<close> of \<^verbatim>\<open>AbstractDriver\<close>, which is defined in
  \<^verbatim>\<open>uavcan/driver/common.py\<close>: it is called with the frame and may raise. The result is
  the exception or the value returned, and the queue.
\<close>

definition receive ::
  "interpreter \<Rightarrow> (CANFrame \<Rightarrow> exn + unit) \<Rightarrow> bool \<Rightarrow> ipc list \<Rightarrow> py_number option
     \<Rightarrow> (exn + CANFrame option) \<times> ipc list" where
  "receive R rx_hook alive rxq tmo =
     (case check_alive alive of
        Inl e \<Rightarrow> (Inl e, rxq)
      | Inr u \<Rightarrow>
          (case py_max_timeout R tmo of
             Inl e \<Rightarrow> (Inl e, rxq)
           | Inr t \<Rightarrow>
               (case queue_get R t rxq of
                  (Inl e, rxq') \<Rightarrow> (Inl e, rxq')
                | (Inr None, rxq') \<Rightarrow> (Inr None, rxq')
                | (Inr (Some obj), rxq') \<Rightarrow>
                    (case obj of
                       IpcFrame f \<Rightarrow>
                         (case rx_hook f of
                            Inl e \<Rightarrow> (Inl e, rxq')
                          | Inr u \<Rightarrow> (Inr (Some f), rxq'))
                     | IpcFailure ex \<Rightarrow> (Inl ex, rxq')
                     | IpcText s \<Rightarrow>
                         (Inl (DriverError (''Unexpected entity in IPC channel: ''
                                             @ [CHR 0x27] @ s @ [CHR 0x27])), rxq')))))"

section \<open>Properties of the handshake\<close>

lemma conn_read_written: "conn_read T c = (b, c') \<Longrightarrow> written c' = written c"
  by (auto simp: conn_read_def split: prod.splits)

lemma wait_for_ack_written_aux:
  assumes "wait_for_ack T c = Some z"
  shows "written (snd z) = written c"
proof (rule wait_for_ack.raw_induct[where P="\<lambda>T c z. written (snd z) = written c", OF _ assms], goal_cases)
  case (1 wfa T c z)
  obtain b c' where rd: "conn_read T (c\<lparr>timeout := ACK_TIMEOUT\<rparr>) = (b, c')"
    by (cases "conn_read T (c\<lparr>timeout := ACK_TIMEOUT\<rparr>)")
  have w: "written c' = written c"
    using conn_read_written[OF rd] by simp
  show ?case
  proof (cases b)
    case None
    with 1(2) rd w show ?thesis by auto
  next
    case (Some x)
    with 1(2) rd w 1(1)[of T c' z] show ?thesis
      by (auto split: if_splits)
  qed
qed

lemma wait_for_ack_written:
  "wait_for_ack T c = Some (r, c') \<Longrightarrow> written c' = written c"
  using wait_for_ack_written_aux[of T c "(r, c')"] by simp

lemma wait_for_ack_success_aux:
  assumes "wait_for_ack T c = Some z"
  shows "fst z = Inr () \<longrightarrow>
     (\<exists>c0. conn_read T (c0\<lparr>timeout := ACK_TIMEOUT\<rparr>) = (Some ACK, snd z))"
proof (rule wait_for_ack.raw_induct[where P="\<lambda>T c z. fst z = Inr () \<longrightarrow>
     (\<exists>c0. conn_read T (c0\<lparr>timeout := ACK_TIMEOUT\<rparr>) = (Some ACK, snd z))", OF _ assms], goal_cases)
  case (1 wfa T c z)
  obtain b c' where rd: "conn_read T (c\<lparr>timeout := ACK_TIMEOUT\<rparr>) = (b, c')"
    by (cases "conn_read T (c\<lparr>timeout := ACK_TIMEOUT\<rparr>)")
  show ?case
  proof (cases b)
    case None
    with 1(2) rd show ?thesis by auto
  next
    case (Some x)
    show ?thesis
    proof (cases "x = ACK")
      case True
      with Some 1(2) rd show ?thesis by (auto split: if_splits)
    next
      case False
      with Some 1(2) rd 1(1)[of T c' z] show ?thesis
        by (auto split: if_splits)
    qed
  qed
qed

lemma py_dec_digit: "n < 10 \<Longrightarrow> py_dec n = [dec_digit n]"
  by (subst py_dec.simps) simp

lemma dom_speed_code:
  "dom speed_code = {10000, 20000, 50000, 100000, 125000, 250000, 500000, 1000000, 8000000}"
  by (auto simp: speed_code_def split: if_splits)

lemma ran_speed_code: "ran speed_code = {0..8}"
  unfolding speed_code_def by (subst ran_distinct) auto

lemma speed_code_le: "speed_code b = Some k \<Longrightarrow> k \<le> 8"
  using ran_speed_code by (auto simp: ran_def)

lemma set_bitrate_command_digit:
  "k < 10 \<Longrightarrow> set_bitrate_command k = [CHR ''S'', dec_digit k, CR]"
  by (simp add: set_bitrate_command_def py_dec_digit)

lemma written_conn_ops [simp]:
  "written (conn_write T bs c) = written c @ [bs]"
  "written (conn_flush T c) = written c"
  "written (conn_flushInput T c) = written c"
  by (simp_all add: conn_flush_def conn_write_def conn_flushInput_def)

lemma init_adapter_written:
  assumes k: "speed_code (case b of Some x \<Rightarrow> x | None \<Rightarrow> DEFAULT_BITRATE) = Some k"
    and r: "init_adapter T c b = Some (r, c')"
  shows "prefix (written c @ [set_bitrate_command k]) (written c')"
proof -
  define c2 where "c2 = conn_flush T (conn_write T (set_bitrate_command k) (conn_flushInput T c))"
  have w2: "written c2 = written c @ [set_bitrate_command k]"
    by (simp add: c2_def)
  obtain r3 c3 where w3: "wait_for_ack T c2 = Some (r3, c3)"
    using r k by (cases "wait_for_ack T c2") (auto simp: init_adapter_def c2_def Let_def)
  have e3: "written c3 = written c2" by (rule wait_for_ack_written[OF w3])
  show ?thesis
  proof (cases r3)
    case (Inl e)
    with r k w3 have "c' = c3" by (simp add: init_adapter_def Let_def c2_def[symmetric])
    with e3 w2 show ?thesis by simp
  next
    case (Inr u)
    define c4 where "c4 = conn_flush T (conn_write T open_channel_command c3)"
    have w4: "written c4 = written c3 @ [open_channel_command]"
      by (simp add: c4_def)
    obtain r5 c5 where w5: "wait_for_ack T c4 = Some (r5, c5)"
      using r k w3 Inr
      by (cases "wait_for_ack T c4") (auto simp: init_adapter_def Let_def c2_def[symmetric] c4_def[symmetric])
    have e5: "written c5 = written c4" by (rule wait_for_ack_written[OF w5])
    have "written c' = written c5"
      using r k w3 Inr w5
      by (cases r5) (auto simp: init_adapter_def Let_def c2_def[symmetric] c4_def[symmetric])
    with e5 w4 e3 w2 show ?thesis by simp
  qed
qed

lemma speed_code_entries:
  "speed_code 10000 = Some 0" "speed_code 20000 = Some 1" "speed_code 50000 = Some 2"
  "speed_code 100000 = Some 3" "speed_code 125000 = Some 4" "speed_code 250000 = Some 5"
  "speed_code 500000 = Some 6" "speed_code 8000000 = Some 7" "speed_code 1000000 = Some 8"
  by (simp_all add: speed_code_def)

lemma init_adapter_after_command:
  assumes k: "speed_code (case b of Some x \<Rightarrow> x | None \<Rightarrow> DEFAULT_BITRATE) = Some k"
  shows "wait_for_ack T (conn_flush T (conn_write T (set_bitrate_command k) (conn_flushInput T c)))
           = None \<Longrightarrow> init_adapter T c b = None"
    and "wait_for_ack T (conn_flush T (conn_write T (set_bitrate_command k) (conn_flushInput T c)))
           = Some (Inl e, c3) \<Longrightarrow> init_adapter T c b = Some (Inl e, c3)"
  using k by (simp_all add: init_adapter_def Let_def)

text \<open>
  Claim C3, as the code has it. The table of \<^verbatim>\<open>_init_adapter\<close> maps the nine bit rates to
  the nine codes 0..8: 10k to 0, 20k to 1, 50k to 2, 100k to 3, 125k to 4, 250k to 5,
  500k to 6, 8M to 7 and 1M to 8, and it has no other key. A bit rate outside the table
  makes the lookup fail with \<^verbatim>\<open>KeyError\<close> before anything is written. For a bit rate of
  the table the set-bitrate command is \<^verbatim>\<open>S\<close>, the single digit of the code and the line
  terminator. It is the first thing the init sequence writes: the acknowledgement wait
  that follows runs on a connection with just this command added, the init sequence does
  not return when that wait does not, it fails with the error of that wait, and whenever
  it returns the command comes first in what it has written.
\<close>

theorem init_adapter_speed_code:
  "speed_code 10000 = Some 0 \<and> speed_code 20000 = Some 1 \<and> speed_code 50000 = Some 2
   \<and> speed_code 100000 = Some 3 \<and> speed_code 125000 = Some 4 \<and> speed_code 250000 = Some 5
   \<and> speed_code 500000 = Some 6 \<and> speed_code 8000000 = Some 7 \<and> speed_code 1000000 = Some 8
   \<and> dom speed_code = {10000, 20000, 50000, 100000, 125000, 250000, 500000, 1000000, 8000000}
   \<and> (speed_code (case b of Some x \<Rightarrow> x | None \<Rightarrow> DEFAULT_BITRATE) = None \<longrightarrow>
        init_adapter T c b =
          Some (Inl (KeyError (case b of Some x \<Rightarrow> x | None \<Rightarrow> DEFAULT_BITRATE)), c))
   \<and> (speed_code (case b of Some x \<Rightarrow> x | None \<Rightarrow> DEFAULT_BITRATE) = Some k \<longrightarrow>
        k \<le> 8 \<and> set_bitrate_command k = [CHR ''S'', dec_digit k, CR]
        \<and> written (conn_flush T (conn_write T (set_bitrate_command k) (conn_flushInput T c)))
            = written c @ [set_bitrate_command k]
        \<and> (wait_for_ack T (conn_flush T (conn_write T (set_bitrate_command k)
                                             (conn_flushInput T c))) = None \<longrightarrow>
             init_adapter T c b = None)
        \<and> (wait_for_ack T (conn_flush T (conn_write T (set_bitrate_command k)
                                             (conn_flushInput T c))) = Some (Inl e, c3) \<longrightarrow>
             init_adapter T c b = Some (Inl e, c3))
        \<and> (init_adapter T c b = Some (r, c') \<longrightarrow>
             prefix (written c @ [set_bitrate_command k]) (written c')))"
proof -
  have a: "speed_code (case b of Some x \<Rightarrow> x | None \<Rightarrow> DEFAULT_BITRATE) = None \<Longrightarrow>
        init_adapter T c b =
          Some (Inl (KeyError (case b of Some x \<Rightarrow> x | None \<Rightarrow> DEFAULT_BITRATE)), c)"
    by (simp add: init_adapter_def Let_def)
  have b: "speed_code (case b of Some x \<Rightarrow> x | None \<Rightarrow> DEFAULT_BITRATE) = Some k \<Longrightarrow>
        k \<le> 8 \<and> set_bitrate_command k = [CHR ''S'', dec_digit k, CR]"
    using speed_code_le[of _ k] set_bitrate_command_digit[of k] by fastforce
  have w: "written (conn_flush T (conn_write T (set_bitrate_command k) (conn_flushInput T c)))
            = written c @ [set_bitrate_command k]"
    by simp
  show ?thesis
    using speed_code_entries dom_speed_code a b w
      init_adapter_after_command[of b k T c] init_adapter_written[of b k T c r c']
    by (intro conjI impI) blast+
qed

theorem init_adapter_speed_code_witness:
  "speed_code (case Some 250000 of Some x \<Rightarrow> x | None \<Rightarrow> DEFAULT_BITRATE) = Some 5
   \<and> init_adapter (script_transport (\<lambda>_. [ACK])) (fresh_conn []) (Some 250000) =
        Some (Inr (), \<lparr>dev = [], timeout = ACK_TIMEOUT, written = [''S5'' @ [CR], ''O'' @ [CR]]\<rparr>)
   \<and> prefix (written (fresh_conn ([]::bytes)) @ [set_bitrate_command 5])
        (written \<lparr>dev = ([]::bytes), timeout = ACK_TIMEOUT, written = [''S5'' @ [CR], ''O'' @ [CR]]\<rparr>)
   \<and> speed_code (case Some 800000 of Some x \<Rightarrow> x | None \<Rightarrow> DEFAULT_BITRATE) = None
   \<and> init_adapter (script_transport (\<lambda>_. [ACK])) (fresh_conn []) (Some 800000) =
        Some (Inl (KeyError 800000), fresh_conn [])"
proof -
  let ?T = "script_transport (\<lambda>_. [ACK])"
  let ?c' = "\<lparr>dev = ([]::bytes), timeout = ACK_TIMEOUT, written = [''S5'' @ [CR], ''O'' @ [CR]]\<rparr>"
  note c2 = conjunct2
  have k: "speed_code (case Some 250000 of Some x \<Rightarrow> x | None \<Rightarrow> DEFAULT_BITRATE) = Some 5"
    by code_simp
  have r: "init_adapter ?T (fresh_conn []) (Some 250000) = Some (Inr (), ?c')"
    by code_simp
  have n: "speed_code (case Some 800000 of Some x \<Rightarrow> x | None \<Rightarrow> DEFAULT_BITRATE) = None"
    by code_simp
  note B = init_adapter_speed_code[where b = "Some 250000" and T = ?T and c = "fresh_conn []"
      and k = 5 and r = "Inr ()" and c' = ?c',
      THEN c2, THEN c2, THEN c2, THEN c2, THEN c2, THEN c2, THEN c2, THEN c2, THEN c2, THEN c2]
  have p: "prefix (written (fresh_conn ([]::bytes)) @ [set_bitrate_command 5]) (written ?c')"
    by (rule B[THEN c2, THEN mp, OF k, THEN c2, THEN c2, THEN c2, THEN c2, THEN c2, THEN mp, OF r])
  note N = init_adapter_speed_code[where b = "Some 800000" and T = ?T and c = "fresh_conn []",
      THEN c2, THEN c2, THEN c2, THEN c2, THEN c2, THEN c2, THEN c2, THEN c2, THEN c2, THEN c2]
  have q: "init_adapter ?T (fresh_conn []) (Some 800000) = Some (Inl (KeyError 800000), fresh_conn [])"
    using N[THEN conjunct1, THEN mp, OF n] by simp
  from k r p n q show ?thesis by (intro conjI)
qed

text \<open>
  The codes are not all within 0..7: the default bit rate of one megabit has the code 8.
\<close>

theorem speed_code_range_counterexample:
  "speed_code 1000000 = Some 8 \<and> \<not> (8::nat) \<le> 7"
  by (simp add: speed_code_def)

text \<open>
  Claim C7. The acknowledgement wait reads one byte at a time under the ACK timeout. A read
  that returns no byte ends it with the timeout error, the NACK byte ends it with the NACK
  error, the ACK byte ends it successfully, and any other byte is dropped and the wait goes
  on from the state after that read. A successful wait has read ACK last. When the byte
  read after the set-bitrate command is NACK, the init sequence fails with the NACK error
  and has written the set-bitrate command only, so the open-channel command is never
  written.
\<close>

theorem wait_for_ack_protocol:
  "(conn_read T (c\<lparr>timeout := ACK_TIMEOUT\<rparr>) = (None, c') \<longrightarrow>
      wait_for_ack T c = Some (Inl (DriverError ''SLCAN ACK timeout''), c'))
   \<and> (conn_read T (c\<lparr>timeout := ACK_TIMEOUT\<rparr>) = (Some NACK, c') \<longrightarrow>
      wait_for_ack T c = Some (Inl (DriverError ''SLCAN NACK in response''), c'))
   \<and> (conn_read T (c\<lparr>timeout := ACK_TIMEOUT\<rparr>) = (Some ACK, c') \<longrightarrow>
      wait_for_ack T c = Some (Inr (), c'))
   \<and> (conn_read T (c\<lparr>timeout := ACK_TIMEOUT\<rparr>) = (Some b, c') \<and> b \<noteq> ACK \<and> b \<noteq> NACK \<longrightarrow>
      wait_for_ack T c = wait_for_ack T c')
   \<and> (wait_for_ack T c = Some (Inr (), c'') \<longrightarrow>
      (\<exists>c0. conn_read T (c0\<lparr>timeout := ACK_TIMEOUT\<rparr>) = (Some ACK, c'')))
   \<and> (speed_code (case bitrate of Some x \<Rightarrow> x | None \<Rightarrow> DEFAULT_BITRATE) = Some k
       \<and> conn_read T ((conn_flush T (conn_write T (set_bitrate_command k) (conn_flushInput T c)))
                         \<lparr>timeout := ACK_TIMEOUT\<rparr>) = (Some NACK, c3) \<longrightarrow>
         init_adapter T c bitrate = Some (Inl (DriverError ''SLCAN NACK in response''), c3)
         \<and> written c3 = written c @ [set_bitrate_command k]
         \<and> set_bitrate_command k \<noteq> open_channel_command)"
proof (intro conjI impI)
  show "wait_for_ack T c = Some (Inl (DriverError ''SLCAN ACK timeout''), c')"
    if "conn_read T (c\<lparr>timeout := ACK_TIMEOUT\<rparr>) = (None, c')"
    using that by (subst wait_for_ack.simps) simp
  show "wait_for_ack T c = Some (Inl (DriverError ''SLCAN NACK in response''), c')"
    if "conn_read T (c\<lparr>timeout := ACK_TIMEOUT\<rparr>) = (Some NACK, c')"
    using that by (subst wait_for_ack.simps) simp
  show "wait_for_ack T c = Some (Inr (), c')"
    if "conn_read T (c\<lparr>timeout := ACK_TIMEOUT\<rparr>) = (Some ACK, c')"
    using that by (subst wait_for_ack.simps) (simp add: ACK_def NACK_def)
  show "wait_for_ack T c = wait_for_ack T c'"
    if "conn_read T (c\<lparr>timeout := ACK_TIMEOUT\<rparr>) = (Some b, c') \<and> b \<noteq> ACK \<and> b \<noteq> NACK"
    using that by (subst wait_for_ack.simps) simp
  show "\<exists>c0. conn_read T (c0\<lparr>timeout := ACK_TIMEOUT\<rparr>) = (Some ACK, c'')"
    if "wait_for_ack T c = Some (Inr (), c'')"
    using wait_for_ack_success_aux[OF that] by simp
next
  assume a: "speed_code (case bitrate of Some x \<Rightarrow> x | None \<Rightarrow> DEFAULT_BITRATE) = Some k
       \<and> conn_read T ((conn_flush T (conn_write T (set_bitrate_command k) (conn_flushInput T c)))
                         \<lparr>timeout := ACK_TIMEOUT\<rparr>) = (Some NACK, c3)"
  define c2 where "c2 = conn_flush T (conn_write T (set_bitrate_command k) (conn_flushInput T c))"
  have w: "wait_for_ack T c2 = Some (Inl (DriverError ''SLCAN NACK in response''), c3)"
    using a by (subst wait_for_ack.simps) (simp add: c2_def)
  show "init_adapter T c bitrate = Some (Inl (DriverError ''SLCAN NACK in response''), c3)"
    using a w by (simp add: init_adapter_def Let_def c2_def)
  show "written c3 = written c @ [set_bitrate_command k]"
    using wait_for_ack_written[OF w] by (simp add: c2_def)
  show "set_bitrate_command k \<noteq> open_channel_command"
    by (simp add: set_bitrate_command_def open_channel_command_def)
qed

theorem wait_for_ack_protocol_witness:
  "init_adapter (script_transport (\<lambda>_. [NACK])) (fresh_conn []) None =
     Some (Inl (DriverError ''SLCAN NACK in response''),
           \<lparr>dev = [], timeout = ACK_TIMEOUT, written = [''S8'' @ [CR]]\<rparr>)
   \<and> wait_for_ack (script_transport (\<lambda>_. [])) (fresh_conn []) =
       Some (Inl (DriverError ''SLCAN ACK timeout''), \<lparr>dev = [], timeout = ACK_TIMEOUT, written = []\<rparr>)
   \<and> wait_for_ack (script_transport (\<lambda>_. [])) (fresh_conn [NACK]) =
       Some (Inl (DriverError ''SLCAN NACK in response''), \<lparr>dev = [], timeout = ACK_TIMEOUT, written = []\<rparr>)
   \<and> wait_for_ack (script_transport (\<lambda>_. [])) (fresh_conn ''x'') =
       wait_for_ack (script_transport (\<lambda>_. [])) \<lparr>dev = [], timeout = ACK_TIMEOUT, written = []\<rparr>
   \<and> wait_for_ack (script_transport (\<lambda>_. [])) (fresh_conn [ACK]) =
       Some (Inr (), \<lparr>dev = [], timeout = ACK_TIMEOUT, written = []\<rparr>)
   \<and> (\<exists>c0. conn_read (script_transport (\<lambda>_. [])) (c0\<lparr>timeout := ACK_TIMEOUT\<rparr>) =
          (Some ACK, \<lparr>dev = [], timeout = ACK_TIMEOUT, written = []\<rparr>))"
proof -
  let ?T = "script_transport (\<lambda>_. [NACK])"
  let ?U = "script_transport (\<lambda>_. [])"
  let ?e = "\<lparr>dev = ([]::bytes), timeout = ACK_TIMEOUT, written = []\<rparr>"
  let ?n = "\<lparr>dev = ([]::bytes), timeout = ACK_TIMEOUT, written = [''S8'' @ [CR]]\<rparr>"
  have r: "speed_code (case None of Some x \<Rightarrow> x | None \<Rightarrow> DEFAULT_BITRATE) = Some 8
     \<and> conn_read ?T ((conn_flush ?T (conn_write ?T (set_bitrate_command 8) (conn_flushInput ?T (fresh_conn []))))
                         \<lparr>timeout := ACK_TIMEOUT\<rparr>) = (Some NACK, ?n)"
    by code_simp
  have r1: "conn_read ?U ((fresh_conn [])\<lparr>timeout := ACK_TIMEOUT\<rparr>) = (None, ?e)"
    by code_simp
  have r2: "conn_read ?U ((fresh_conn [NACK])\<lparr>timeout := ACK_TIMEOUT\<rparr>) = (Some NACK, ?e)"
    by code_simp
  have r3: "conn_read ?U ((fresh_conn [ACK])\<lparr>timeout := ACK_TIMEOUT\<rparr>) = (Some ACK, ?e)"
    by code_simp
  have r4: "conn_read ?U ((fresh_conn ''x'')\<lparr>timeout := ACK_TIMEOUT\<rparr>) = (Some (CHR ''x''), ?e)
      \<and> CHR ''x'' \<noteq> ACK \<and> CHR ''x'' \<noteq> NACK"
    by code_simp
  note P = wait_for_ack_protocol[where T = ?U and c' = ?e and c'' = ?e]
  note c2 = conjunct2
  have a1: "wait_for_ack ?U (fresh_conn []) = Some (Inl (DriverError ''SLCAN ACK timeout''), ?e)"
    by (rule P[where c = "fresh_conn []", THEN conjunct1, THEN mp, OF r1])
  have a2: "wait_for_ack ?U (fresh_conn [NACK]) = Some (Inl (DriverError ''SLCAN NACK in response''), ?e)"
    by (rule P[where c = "fresh_conn [NACK]", THEN c2, THEN conjunct1, THEN mp, OF r2])
  have a3: "wait_for_ack ?U (fresh_conn [ACK]) = Some (Inr (), ?e)"
    by (rule P[where c = "fresh_conn [ACK]", THEN c2, THEN c2, THEN conjunct1, THEN mp, OF r3])
  have a4: "wait_for_ack ?U (fresh_conn ''x'') = wait_for_ack ?U ?e"
    by (rule P[where c = "fresh_conn ''x''" and b = "CHR ''x''",
          THEN c2, THEN c2, THEN c2, THEN conjunct1, THEN mp, OF r4])
  have a5: "\<exists>c0. conn_read ?U (c0\<lparr>timeout := ACK_TIMEOUT\<rparr>) = (Some ACK, ?e)"
    by (rule P[where c = "fresh_conn [ACK]",
          THEN c2, THEN c2, THEN c2, THEN c2, THEN conjunct1, THEN mp, OF a3])
  have a6: "init_adapter ?T (fresh_conn []) None = Some (Inl (DriverError ''SLCAN NACK in response''), ?n)"
    by (rule wait_for_ack_protocol[where T = ?T and c = "fresh_conn []" and bitrate = None and k = 8
         and ?c3.0 = ?n, THEN c2, THEN c2, THEN c2, THEN c2, THEN c2, THEN mp, OF r, THEN conjunct1])
  from a1 a2 a3 a4 a5 a6 show ?thesis by (intro conjI)
qed

section \<open>Properties of the frame codec\<close>

subsection \<open>Python indexing on positions inside the buffer\<close>

lemma py_index_at:
  "i = int (length xs) \<Longrightarrow> py_index (xs @ y # zs) i = Some y"
  by (simp add: py_index_def)

lemma py_slice_at:
  "i = int (length xs) \<Longrightarrow> j = i + int (length ys) \<Longrightarrow> py_slice (xs @ ys @ zs) i j = ys"
  by (simp add: py_slice_def py_clip_def Let_def)

lemma py_slice_from_at:
  "i = int (length xs) \<Longrightarrow> py_slice_from (xs @ ys) i = ys"
  by (simp add: py_slice_from_def py_clip_def)

subsection \<open>Hexadecimal digits\<close>

lemma hex_value_not_special:
  assumes "hex_value c \<noteq> None"
  shows "\<not> py_isspace c" "c \<noteq> CHR ''+''" "c \<noteq> CHR ''-''" "c \<noteq> CHR ''_''"
    "c \<noteq> CHR ''x''" "c \<noteq> CHR ''X''" "c \<noteq> CHR ''T''" "c \<noteq> CHR ''t''" "c \<noteq> CR"
    "(of_char c :: nat) < 128"
  using assms
  by (auto simp: hex_value_def py_isspace_def Let_def CR_def split: if_splits)

lemma double_underscore_none:
  "CHR ''_'' \<notin> set s \<Longrightarrow> \<not> double_underscore s"
  by (induction s rule: double_underscore.induct) auto

lemma py_int16_hex:
  assumes h: "\<forall>c \<in> set s. hex_value c \<noteq> None" and ne: "s \<noteq> []"
  shows "py_int16 s = Some (digits_value s)"
proof -
  have hd: "hex_value (hd s) \<noteq> None" using h ne by (cases s) auto
  have s1: "dropWhile py_isspace s = s"
    using hd ne hex_value_not_special(1)[of "hd s"] by (cases s) auto
  have nu: "CHR ''_'' \<notin> set s" using h hex_value_not_special(4) by blast
  have s3: "(case s of
                  a # x # r \<Rightarrow>
                    if a = CHR ''0'' \<and> (x = CHR ''x'' \<or> x = CHR ''X'')
                    then (case r of u # r' \<Rightarrow> if u = CHR ''_'' then r' else r | [] \<Rightarrow> r)
                    else s
                | _ \<Rightarrow> s) = s"
    using h hex_value_not_special(5,6) by (auto split: list.splits)
  have tw: "takeWhile digit_or_underscore s = s" "dropWhile digit_or_underscore s = []"
    using h by (auto simp: digit_or_underscore_def)
  have sg: "hd s \<noteq> CHR ''+''" "hd s \<noteq> CHR ''-''" "hd s \<noteq> CHR ''_''"
    using hd hex_value_not_special(2,3,4)[of "hd s"] by auto
  have la: "last s \<noteq> CHR ''_''" using nu ne last_in_set by metis
  show ?thesis
    unfolding py_int16_def Let_def s1
    using sg ne by (simp add: s3 tw la double_underscore_none[OF nu])
qed

lemma utf8_decode_ascii:
  "\<forall>c \<in> set s. (of_char c :: nat) < 128 \<Longrightarrow> utf8_decode s = Some (map of_char s)"
  by (induction s) simp_all

lemma py_int16_decoded_ascii:
  assumes "\<forall>c \<in> set s. (of_char c :: nat) < 128"
  shows "py_int16_decoded s = py_int16 s"
proof -
  have "map char_of (map (of_char :: char \<Rightarrow> nat) s) = s"
    by (induction s) simp_all
  then show ?thesis
    using assms by (simp add: py_int16_decoded_def utf8_decode_ascii py_int16_text_def)
qed

lemma py_int16_decoded_hex:
  assumes h: "\<forall>c \<in> set s. hex_value c \<noteq> None" and ne: "s \<noteq> []"
  shows "py_int16_decoded s = Some (digits_value s)"
proof -
  have "\<forall>c \<in> set s. (of_char c :: nat) < 128"
    using h hex_value_not_special(10) by blast
  then show ?thesis by (simp add: py_int16_decoded_ascii py_int16_hex[OF h ne])
qed

lemma a2b_hex_length: "a2b_hex s = Some d \<Longrightarrow> length s = 2 * length d"
  by (induction s arbitrary: d rule: a2b_hex.induct) (auto split: option.splits)

lemma a2b_hex_digits: "a2b_hex s = Some d \<Longrightarrow> \<forall>c \<in> set s. hex_value c \<noteq> None"
  by (induction s arbitrary: d rule: a2b_hex.induct) (auto split: option.splits)

subsection \<open>A fragment in the buffer\<close>

lemma of_char_dec_digit: "n \<le> 9 \<Longrightarrow> int (of_char (dec_digit n)) - 48 = int n"
  by (simp add: dec_digit_def)

lemma CR_not_upper_hex: "CR \<notin> set ''0123456789ABCDEF''"
  by (simp add: CR_def)

lemma find_marker_here:
  "pos = int (length pre) \<Longrightarrow> m = CHR ''T'' \<or> m = CHR ''t'' \<Longrightarrow>
   find_marker (pre @ m # tail) pos = Some pos"
  by (subst find_marker.simps) (auto simp: py_index_at)

lemma find_marker_end:
  "int (length buf) \<le> pos \<Longrightarrow> find_marker buf pos = Some pos"
  by (subst find_marker.simps) simp

lemma parse_fragment_header:
  fixes m :: char and idd :: string and nd :: nat
  defines "k \<equiv> (if m = CHR ''T'' then 8 else 3) :: int"
  assumes buf: "buf = pre @ m # idd @ dec_digit nd # tail"
    and pos: "pos = int (length pre)"
    and idl: "int (length idd) = k"
    and idh: "\<forall>c \<in> set idd. hex_value c \<noteq> None"
    and nd: "nd \<le> 8"
  shows "py_index buf pos = Some m"
    and "py_int16_decoded (py_slice buf (pos + 1) (pos + 1 + k)) = Some (digits_value idd)"
    and "py_index buf (pos + 1 + k) = Some (dec_digit nd)"
    and "int (length buf) - pos = k + 2 + int (length tail)"
proof -
  show "py_index buf pos = Some m"
    by (simp add: buf pos py_index_at)
  have ne: "idd \<noteq> []" using idl by (auto simp: k_def split: if_splits)
  have "py_slice buf (pos + 1) (pos + 1 + k) = idd"
    using py_slice_at[of "pos + 1" "pre @ [m]" "pos + 1 + k" idd "dec_digit nd # tail"]
    by (simp add: buf pos idl)
  then show "py_int16_decoded (py_slice buf (pos + 1) (pos + 1 + k)) = Some (digits_value idd)"
    by (simp add: py_int16_decoded_hex[OF idh ne])
  show "py_index buf (pos + 1 + k) = Some (dec_digit nd)"
    using py_index_at[of "pos + 1 + k" "pre @ m # idd" "dec_digit nd" tail]
    by (simp add: buf pos idl[symmetric])
  show "int (length buf) - pos = k + 2 + int (length tail)"
    by (simp add: buf pos idl[symmetric])
qed

lemma parse_fragment_need_more_short:
  assumes "py_index buf pos = Some m"
    and "int (length buf) - pos < (if m = CHR ''T'' then 8 else 3) + 2"
  shows "parse_fragment buf pos = NeedMore"
  using assms by (simp add: parse_fragment_def Let_def)

lemma parse_fragment_need_more_tail:
  fixes m :: char and idd :: string and nd :: nat
  defines "k \<equiv> (if m = CHR ''T'' then 8 else 3) :: int"
  assumes buf: "buf = pre @ m # idd @ dec_digit nd # tail"
    and pos: "pos = int (length pre)"
    and idl: "int (length idd) = k"
    and idh: "\<forall>c \<in> set idd. hex_value c \<noteq> None"
    and nd: "nd \<le> 8"
    and short: "length tail < 2 * nd + 1"
  shows "parse_fragment buf pos = NeedMore"
proof -
  note h = parse_fragment_header[OF buf pos idl[unfolded k_def] idh nd, folded k_def]
  have pl: "int (of_char (dec_digit nd)) - 48 = int nd"
    using nd by (simp add: of_char_dec_digit)
  have c1: "\<not> (k + 2 + int (length tail) < k + 2)" by simp
  have c2: "k + 2 + int (length tail) < 2 + k + int nd * 2 + 1" using short by simp
  have c3: "\<not> (int nd > 8)" using nd by simp
  show ?thesis
    by (simp only: parse_fragment_def Let_def k_def[symmetric] h pl c1 c2 c3
        option.case if_True if_False)
qed

lemma parse_fragment_line:
  fixes m :: char and idd :: string and d :: bytes
  defines "k \<equiv> (if m = CHR ''T'' then 8 else 3) :: int"
  assumes buf: "buf = pre @ m # idd @ dec_digit (length d) # pay @ CR # rest"
    and pos: "pos = int (length pre)"
    and idl: "int (length idd) = k"
    and idh: "\<forall>c \<in> set idd. hex_value c \<noteq> None"
    and nd: "length d \<le> 8"
    and pay: "a2b_hex pay = Some d"
  shows "parse_fragment buf pos =
           Parsed \<lparr>frame_id = digits_value idd, data = d, extended = (m = CHR ''T''),
                   ts_hardware = None\<rparr>
                  (pos + int (length (m # idd @ dec_digit (length d) # pay @ [CR])))"
proof -
  let ?n = "int (length d)"
  note h = parse_fragment_header[OF buf pos idl[unfolded k_def] idh nd, folded k_def]
  have lp: "length pay = 2 * length d" by (rule a2b_hex_length[OF pay])
  have pl: "int (of_char (dec_digit (length d))) - 48 = ?n"
    using nd by (simp add: of_char_dec_digit)
  have c1: "\<not> (k + 2 + int (length (pay @ CR # rest)) < k + 2)" by simp
  have c2: "\<not> (k + 2 + int (length (pay @ CR # rest)) < 2 + k + ?n * 2 + 1)"
    by (simp add: lp)
  have c3: "\<not> (?n > 8)" using nd by simp
  have a4: "py_index buf (pos + (2 + k + ?n * 2 + 1) - 1) = Some CR"
    using py_index_at[of "pos + (2 + k + ?n * 2 + 1) - 1"
        "pre @ m # idd @ dec_digit (length d) # pay" CR rest]
    by (simp add: buf pos idl[symmetric] lp)
  have a5: "py_slice buf (pos + 2 + k) (pos + 2 + k + ?n * 2) = pay"
    using py_slice_at[of "pos + 2 + k" "pre @ m # idd @ [dec_digit (length d)]"
        "pos + 2 + k + ?n * 2" pay "CR # rest"]
    by (simp add: buf pos idl[symmetric] lp)
  have e: "(k = 8) = (m = CHR ''T'')" by (simp add: k_def)
  have "parse_fragment buf pos =
          Parsed \<lparr>frame_id = digits_value idd, data = d, extended = (k = 8),
                   ts_hardware = None\<rparr> (pos + (2 + k + ?n * 2 + 1))"
    by (simp only: parse_fragment_def Let_def k_def[symmetric] h pl c1 c2 c3 a4 a5 pay
        CR_not_upper_hex option.case if_True if_False simp_thms)
  then show ?thesis
    using idl by (auto simp: k_def lp split: if_splits)
qed

subsection \<open>The encoder produces a fragment\<close>

lemma hex_value_hex_upper: "\<forall>d<16. hex_value (hex_upper d) = Some d"
  by code_simp

lemma hex_value_hex_lower: "\<forall>d<16. hex_value (hex_lower d) = Some d"
  by code_simp

lemma digits_value_snoc:
  "c \<noteq> CHR ''_'' \<Longrightarrow> digits_value (s @ [c]) = 16 * digits_value s + int (the (hex_value c))"
  by (simp add: digits_value_def)

lemma digits_value_single:
  "c \<noteq> CHR ''_'' \<Longrightarrow> digits_value [c] = int (the (hex_value c))"
  by (simp add: digits_value_def)

lemma digits_value_zeros: "digits_value (replicate j (CHR ''0'') @ s) = digits_value s"
proof (induction j)
  case 0
  show ?case by simp
next
  case (Suc j)
  have "digits_value (CHR ''0'' # t) = digits_value t" for t
    by (simp add: digits_value_def hex_value_def)
  with Suc show ?case by simp
qed

lemma py_hex_upper_digits: "\<forall>c \<in> set (py_hex_upper n). hex_value c \<noteq> None"
proof (induction n rule: py_hex_upper.induct)
  case (1 n)
  show ?case
  proof (cases "n < 16")
    case True
    then show ?thesis
      using hex_value_hex_upper by (subst py_hex_upper.simps) simp
  next
    case False
    have "n mod 16 < 16" by simp
    then have "hex_value (hex_upper (n mod 16)) \<noteq> None"
      using hex_value_hex_upper by simp
    with False 1 show ?thesis
      by (subst py_hex_upper.simps) simp
  qed
qed

lemma py_hex_upper_value: "digits_value (py_hex_upper n) = int n"
proof (induction n rule: py_hex_upper.induct)
  case (1 n)
  show ?case
  proof (cases "n < 16")
    case True
    then have v: "hex_value (hex_upper n) = Some n" using hex_value_hex_upper by simp
    then have "hex_upper n \<noteq> CHR ''_''" using hex_value_not_special(4)[of "hex_upper n"] by auto
    with True v show ?thesis
      by (subst py_hex_upper.simps) (simp add: digits_value_single)
  next
    case False
    have "n mod 16 < 16" by simp
    then have v: "hex_value (hex_upper (n mod 16)) = Some (n mod 16)"
      using hex_value_hex_upper by blast
    then have u: "hex_upper (n mod 16) \<noteq> CHR ''_''"
      using hex_value_not_special(4)[of "hex_upper (n mod 16)"] by auto
    have "digits_value (py_hex_upper n)
            = 16 * digits_value (py_hex_upper (n div 16)) + int (n mod 16)"
      using False by (subst py_hex_upper.simps) (simp add: digits_value_snoc[OF u] v)
    also have "\<dots> = 16 * int (n div 16) + int (n mod 16)"
      using 1 False by simp
    also have "\<dots> = int n" by presburger
    finally show ?thesis .
  qed
qed

lemma py_hex_upper_length: "0 < w \<Longrightarrow> n < 16 ^ w \<Longrightarrow> length (py_hex_upper n) \<le> w"
proof (induction n arbitrary: w rule: py_hex_upper.induct)
  case (1 n)
  show ?case
  proof (cases "n < 16")
    case True
    with 1(2) show ?thesis by (subst py_hex_upper.simps) simp
  next
    case False
    obtain v where w: "w = Suc v" using 1(2) by (cases w) auto
    have "v \<noteq> 0" using False 1(3) w by (cases v) auto
    moreover have "n div 16 < 16 ^ v"
      using 1(3) w by (simp add: less_mult_imp_div_less mult.commute)
    ultimately have "length (py_hex_upper (n div 16)) \<le> v"
      using 1(1)[OF False, of v] by simp
    then show ?thesis
      using False w by (subst py_hex_upper.simps) simp
  qed
qed

lemma py_format_0X_shape:
  assumes "0 \<le> n" and "n < 16 ^ w" and "0 < w"
  shows "length (py_format_0X w n) = w"
    and "\<forall>c \<in> set (py_format_0X w n). hex_value c \<noteq> None"
    and "digits_value (py_format_0X w n) = n"
proof -
  let ?ds = "py_hex_upper (nat \<bar>n\<bar>)"
  have f: "py_format_0X w n = replicate (w - length ?ds) (CHR ''0'') @ ?ds"
    using assms(1) by (simp add: py_format_0X_def Let_def)
  have "nat \<bar>n\<bar> < 16 ^ w" using assms(1,2) by (simp add: nat_less_iff)
  then have l: "length ?ds \<le> w" using py_hex_upper_length[OF assms(3)] by simp
  show "length (py_format_0X w n) = w" using l by (simp add: f)
  have "hex_value (CHR ''0'') \<noteq> None" by (simp add: hex_value_def)
  then show "\<forall>c \<in> set (py_format_0X w n). hex_value c \<noteq> None"
    using py_hex_upper_digits[of "nat \<bar>n\<bar>"] by (auto simp: f)
  show "digits_value (py_format_0X w n) = n"
    using assms(1) by (simp add: f digits_value_zeros py_hex_upper_value)
qed

lemma a2b_hex_b2a_hex: "a2b_hex (b2a_hex d) = Some d"
proof (induction d)
  case Nil
  show ?case by simp
next
  case (Cons c d)
  let ?n = "of_char c :: nat"
  have "?n < 256" by simp
  then have "?n div 16 < 16" by (simp add: less_mult_imp_div_less)
  then have h: "hex_value (hex_lower (?n div 16)) = Some (?n div 16)"
    using hex_value_hex_lower by blast
  have "?n mod 16 < 16" by simp
  then have l: "hex_value (hex_lower (?n mod 16)) = Some (?n mod 16)"
    using hex_value_hex_lower by blast
  have "char_of (16 * (?n div 16) + ?n mod 16) = c" by simp
  with Cons h l show ?case by simp
qed

lemma send_frame_line_wire:
  assumes v: "valid_frame f"
  shows "wire_line (send_frame_line f) (f\<lparr>ts_hardware := None\<rparr>)"
proof -
  have d: "py_dec (length (data f)) = [dec_digit (length (data f))]"
    using v by (simp add: valid_frame_def py_dec_digit)
  have n: "length (data f) \<le> 8" using v by (simp add: valid_frame_def)
  show ?thesis
  proof (cases "extended f")
    case True
    have "frame_id f < 16 ^ 8" using v True by (simp add: valid_frame_def)
    with v py_format_0X_shape[of "frame_id f" 8] True d n a2b_hex_b2a_hex[of "data f"]
    show ?thesis
      unfolding wire_line_def
      by (intro exI[of _ "py_format_0X 8 (frame_id f)"] exI[of _ "b2a_hex (data f)"])
         (simp add: send_frame_line_def valid_frame_def)
  next
    case False
    have "frame_id f < 16 ^ 3" using v False by (simp add: valid_frame_def)
    with v py_format_0X_shape[of "frame_id f" 3] False d n a2b_hex_b2a_hex[of "data f"]
    show ?thesis
      unfolding wire_line_def
      by (intro exI[of _ "py_format_0X 3 (frame_id f)"] exI[of _ "b2a_hex (data f)"])
         (simp add: send_frame_line_def valid_frame_def)
  qed
qed

subsection \<open>Scanning a stream of lines\<close>

lemma put_nowait_room:
  "length q < cap \<Longrightarrow> put_nowait cap q x = Inr (q @ [x])"
  by (simp add: put_nowait_def)

lemma find_marker_skip:
  "\<forall>c \<in> set mid. c \<noteq> CHR ''T'' \<and> c \<noteq> CHR ''t'' \<Longrightarrow>
   find_marker (pre @ mid @ rest) (int (length pre)) =
   find_marker (pre @ mid @ rest) (int (length pre) + int (length mid))"
proof (induction mid arbitrary: pre)
  case Nil
  show ?case by simp
next
  case (Cons c mid)
  have "find_marker (pre @ (c # mid) @ rest) (int (length pre)) =
        find_marker (pre @ (c # mid) @ rest) (int (length pre) + 1)"
    using Cons.prems
    by (subst find_marker.simps) (simp add: py_index_at[of _ pre c "mid @ rest"])
  also have "\<dots> = find_marker ((pre @ [c]) @ mid @ rest) (int (length (pre @ [c])))"
    by (simp add: add.commute)
  also have "\<dots> = find_marker ((pre @ [c]) @ mid @ rest)
                      (int (length (pre @ [c])) + int (length mid))"
    using Cons.prems by (intro Cons.IH) simp
  finally show ?case by (simp add: ac_simps)
qed

lemma wire_line_nonempty: "wire_line l f \<Longrightarrow> l \<noteq> []"
  by (auto simp: wire_line_def)

lemma rx_scan_step_line:
  assumes w: "wire_line l f"
    and buf: "buf = pre @ l @ rest"
    and pos: "pos = int (length pre)"
    and room: "length q < RX_QUEUE_SIZE"
  shows "rx_scan_step buf pos q = Continue (pos + int (length l)) (q @ [IpcFrame f])"
proof -
  let ?m = "if extended f then CHR ''T'' else CHR ''t''"
  obtain idd pay where l: "l = ?m # idd @ dec_digit (length (data f)) # pay @ [CR]"
    and idl0: "int (length idd) = (if extended f then 8 else 3)"
    and idh: "\<forall>c \<in> set idd. hex_value c \<noteq> None"
    and idv: "digits_value idd = frame_id f"
    and nd: "length (data f) \<le> 8"
    and pay: "a2b_hex pay = Some (data f)"
    and ts: "ts_hardware f = None"
    using w unfolding wire_line_def by blast
  have idl: "int (length idd) = (if ?m = CHR ''T'' then 8 else 3)"
    using idl0 by simp
  have b: "buf = pre @ ?m # idd @ dec_digit (length (data f)) # pay @ CR # rest"
    by (simp add: buf l)
  have fm: "find_marker buf pos = Some pos"
    unfolding b by (rule find_marker_here[OF pos]) simp
  have lt: "\<not> int (length buf) \<le> pos" by (simp add: b pos)
  have e: "\<lparr>frame_id = digits_value idd, data = data f, extended = (?m = CHR ''T''),
            ts_hardware = None\<rparr> = f"
    using ts by (simp add: idv)
  have pf: "parse_fragment buf pos = Parsed f (pos + int (length l))"
    using parse_fragment_line[OF b pos idl idh nd pay] unfolding e l .
  show ?thesis
    by (simp add: rx_scan_step_def fm lt pf put_nowait_room[OF room])
qed

lemma rx_scan_step_prefix:
  assumes w: "wire_line l f"
    and p: "strict_prefix p l"
    and buf: "buf = pre @ p"
    and pos: "pos = int (length pre)"
  shows "rx_scan_step buf pos q = Stop (Scanned pos q)"
proof (cases p)
  case Nil
  then have "find_marker buf pos = Some pos"
    using find_marker_end[of buf pos] by (simp add: buf pos)
  then show ?thesis by (simp add: rx_scan_step_def buf pos Nil)
next
  case (Cons c p')
  let ?m = "if extended f then CHR ''T'' else CHR ''t''"
  let ?k = "if ?m = CHR ''T'' then 8 else 3 :: int"
  obtain idd pay where l: "l = ?m # idd @ dec_digit (length (data f)) # pay @ [CR]"
    and idl0: "int (length idd) = (if extended f then 8 else 3)"
    and idh: "\<forall>c \<in> set idd. hex_value c \<noteq> None"
    and nd: "length (data f) \<le> 8"
    and pay: "a2b_hex pay = Some (data f)"
    using w unfolding wire_line_def by blast
  have idl: "int (length idd) = ?k" using idl0 by simp
  have pt: "p = take (length p) l" and pl: "length p < length l"
    using p by (auto simp: strict_prefix_def prefix_def)
  have "hd p = hd l"
    using p Cons by (auto simp: strict_prefix_def prefix_def)
  then have c: "c = ?m" by (simp add: Cons l)
  have fm: "find_marker buf pos = Some pos"
    unfolding buf Cons c by (rule find_marker_here[OF pos]) simp
  have lt: "\<not> int (length buf) \<le> pos" by (simp add: buf pos Cons)
  have i0: "py_index buf pos = Some ?m"
    by (simp add: buf Cons c py_index_at[OF pos])
  have nm: "parse_fragment buf pos = NeedMore"
  proof (cases "int (length p) < ?k + 2")
    case True
    then have "int (length buf) - pos < ?k + 2" by (simp add: buf pos)
    then show ?thesis by (rule parse_fragment_need_more_short[OF i0])
  next
    case False
    let ?h = "?m # idd @ [dec_digit (length (data f))]"
    let ?t = "pay @ [CR]"
    have hl: "length ?h \<le> length p" using False idl by (simp split: if_splits)
    have "p = take (length p) (?h @ ?t)" using pt l by simp
    also have "\<dots> = ?h @ take (length p - length ?h) ?t"
      using hl by (simp only: take_append take_all_iff) simp
    finally have ps: "p = ?m # idd @ dec_digit (length (data f)) # take (length p - length ?h) ?t"
      by simp
    have lt2: "length ?t = 2 * length (data f) + 1"
      using a2b_hex_length[OF pay] by simp
    have "length p - length ?h < length ?t"
      using pl l by simp
    then have short: "length (take (length p - length ?h) ?t) < 2 * length (data f) + 1"
      using lt2 by simp
    have b: "buf = pre @ ?m # idd @ dec_digit (length (data f)) # take (length p - length ?h) ?t"
      using ps buf by simp
    show ?thesis
      by (rule parse_fragment_need_more_tail[OF b pos idl idh nd short])
  qed
  show ?thesis
    by (simp add: rx_scan_step_def fm lt nm)
qed

lemma rx_scan_stream:
  assumes w0: "wire_line l0 f0" and p: "strict_prefix p l0"
  shows "list_all2 wire_line ls fs \<Longrightarrow> length q + length fs \<le> RX_QUEUE_SIZE \<Longrightarrow>
         rx_scan (pre @ concat ls @ p) (int (length pre)) q =
           Some (Scanned (int (length pre) + int (length (concat ls))) (q @ map IpcFrame fs))"
proof (induction ls arbitrary: fs pre q)
  case Nil
  then have fs: "fs = []" by simp
  have "rx_scan_step (pre @ p) (int (length pre)) q = Stop (Scanned (int (length pre)) q)"
    by (rule rx_scan_step_prefix[OF w0 p]) simp_all
  then show ?case by (subst rx_scan.simps) (simp add: fs)
next
  case (Cons l ls)
  obtain g gs where fs: "fs = g # gs" and wl: "wire_line l g" and wls: "list_all2 wire_line ls gs"
    using Cons.prems(1) by (auto simp: list_all2_Cons1)
  let ?buf = "pre @ concat (l # ls) @ p"
  have b: "?buf = pre @ l @ (concat ls @ p)" by simp
  have room: "length q < RX_QUEUE_SIZE" using Cons.prems(2) fs by simp
  have st: "rx_scan_step ?buf (int (length pre)) q =
      Continue (int (length pre) + int (length l)) (q @ [IpcFrame g])"
    by (rule rx_scan_step_line[OF wl b _ room]) simp
  have b2: "?buf = (pre @ l) @ concat ls @ p" by simp
  have r2: "length (q @ [IpcFrame g]) + length gs \<le> RX_QUEUE_SIZE"
    using Cons.prems(2) fs by simp
  have ih: "rx_scan ?buf (int (length (pre @ l))) (q @ [IpcFrame g]) =
      Some (Scanned (int (length (pre @ l)) + int (length (concat ls)))
                    ((q @ [IpcFrame g]) @ map IpcFrame gs))"
    unfolding b2 by (rule Cons.IH[OF wls r2])
  have "rx_scan ?buf (int (length pre)) q =
      rx_scan ?buf (int (length pre) + int (length l)) (q @ [IpcFrame g])"
    by (subst rx_scan.simps) (simp only: st scan_step.case)
  also have "\<dots> = Some (Scanned (int (length pre) + int (length (concat (l # ls))))
                    (q @ map IpcFrame fs))"
    using ih by (simp add: add.assoc fs)
  finally show ?case .
qed

lemma rx_iteration_stream:
  assumes w0: "wire_line l0 f0" and p: "strict_prefix p l0"
    and ls: "list_all2 wire_line ls fs" and room: "length q + length fs \<le> RX_QUEUE_SIZE"
    and b: "b @ c = concat ls @ p"
  shows "rx_iteration b q c = Some (p, q @ map IpcFrame fs)"
proof -
  have "rx_scan ([] @ concat ls @ p) (int (length ([]::bytes))) q =
      Some (Scanned (int (length ([]::bytes)) + int (length (concat ls))) (q @ map IpcFrame fs))"
    by (rule rx_scan_stream[OF w0 p ls room])
  then have "rx_scan (b @ c) 0 q = Some (Scanned (int (length (concat ls))) (q @ map IpcFrame fs))"
    by (simp add: b)
  then show ?thesis
    by (simp add: rx_iteration_def Let_def b py_slice_from_at)
qed

subsection \<open>Chunks of a stream of lines\<close>

lemma valid_frame_exists: "valid_frame \<lparr>frame_id = 0, data = [], extended = False, ts_hardware = None\<rparr>"
  by (simp add: valid_frame_def)

lemma wire_line_exists: "\<exists>l f. wire_line l f"
  using send_frame_line_wire[OF valid_frame_exists] by blast

lemma nil_strict_prefix_line: "wire_line l f \<Longrightarrow> strict_prefix [] l"
  using wire_line_nonempty[of l f] by (simp add: strict_prefix_def)

lemma stream_prefix_decomp:
  "list_all2 wire_line ls fs \<Longrightarrow> prefix x (concat ls) \<Longrightarrow>
   \<exists>ls1 ls2 fs1 fs2 p l0 f0. ls = ls1 @ ls2 \<and> fs = fs1 @ fs2
      \<and> list_all2 wire_line ls1 fs1 \<and> list_all2 wire_line ls2 fs2
      \<and> x = concat ls1 @ p \<and> wire_line l0 f0 \<and> strict_prefix p l0
      \<and> prefix p (concat ls2)"
proof (induction ls arbitrary: fs x)
  case Nil
  then have "x = []" "fs = []" by simp_all
  moreover obtain l0 f0 where w0: "wire_line l0 f0" using wire_line_exists by blast
  ultimately show ?case
    using nil_strict_prefix_line[OF w0]
    by (intro exI[of _ "[]"] exI[of _ l0] exI[of _ f0]) simp
next
  case (Cons l ls)
  obtain g gs where fs: "fs = g # gs" and wl: "wire_line l g" and wls: "list_all2 wire_line ls gs"
    using Cons.prems(1) by (auto simp: list_all2_Cons1)
  have px: "prefix x (l @ concat ls)"
    using Cons.prems(2) by simp
  show ?case
  proof (cases "strict_prefix x l")
    case True
    with Cons.prems wl show ?thesis
      by (intro exI[of _ "[]"] exI[of _ "l # ls"] exI[of _ fs] exI[of _ x] exI[of _ l] exI[of _ g])
         simp
  next
    case False
    from px have "prefix x l \<or> (\<exists>us. x = l @ us \<and> prefix us (concat ls))"
      by (simp add: prefix_append)
    with False obtain us where us: "x = l @ us" and pu: "prefix us (concat ls)"
      by (auto simp: strict_prefix_def)
    from Cons.IH[OF wls pu]
    obtain ls1 ls2 fs1 fs2 p l0 f0 where "ls = ls1 @ ls2" "gs = fs1 @ fs2"
        "list_all2 wire_line ls1 fs1" "list_all2 wire_line ls2 fs2"
        "us = concat ls1 @ p" "wire_line l0 f0" "strict_prefix p l0" "prefix p (concat ls2)"
      by blast
    then show ?thesis
      using us fs wl
      by (intro exI[of _ "l # ls1"] exI[of _ ls2] exI[of _ "g # fs1"] exI[of _ fs2]
            exI[of _ p] exI[of _ l0] exI[of _ f0]) simp
  qed
qed

lemma rx_iteration_split:
  assumes v: "list_all2 wire_line ls fs"
    and room: "length q + length fs \<le> RX_QUEUE_SIZE"
    and pre: "prefix (a @ c) (concat ls)"
  shows "\<exists>t q1. rx_iteration [] q a = Some (t, q1)
           \<and> rx_iteration t q1 c = rx_iteration [] q (a @ c)"
proof -
  have pa: "prefix a (concat ls)"
    using pre by (metis prefix_order.trans prefixI)
  obtain ls1 ls2 fs1 fs2 p l0 f0 where ls: "ls = ls1 @ ls2" and fs: "fs = fs1 @ fs2"
      and w1: "list_all2 wire_line ls1 fs1" and w2: "list_all2 wire_line ls2 fs2"
      and a: "a = concat ls1 @ p"
      and w0: "wire_line l0 f0" and sp: "strict_prefix p l0"
    using stream_prefix_decomp[OF v pa] by blast
  have r1: "length q + length fs1 \<le> RX_QUEUE_SIZE" using room fs by simp
  have ia: "rx_iteration [] q a = Some (p, q @ map IpcFrame fs1)"
    by (rule rx_iteration_stream[OF w0 sp w1 r1]) (simp add: a)
  have "prefix (concat ls1 @ (p @ c)) (concat ls1 @ concat ls2)"
    using pre by (simp add: a ls)
  then have pc: "prefix (p @ c) (concat ls2)"
    by simp
  obtain ls3 ls4 fs3 fs4 p2 l2 f2 where ls2: "ls2 = ls3 @ ls4" and fs2: "fs2 = fs3 @ fs4"
      and w3: "list_all2 wire_line ls3 fs3"
      and pce: "p @ c = concat ls3 @ p2"
      and wl2: "wire_line l2 f2" and sp2: "strict_prefix p2 l2"
    using stream_prefix_decomp[OF w2 pc] by blast
  have r2: "length (q @ map IpcFrame fs1) + length fs3 \<le> RX_QUEUE_SIZE"
    using room fs fs2 by simp
  have ic: "rx_iteration p (q @ map IpcFrame fs1) c =
      Some (p2, (q @ map IpcFrame fs1) @ map IpcFrame fs3)"
    by (rule rx_iteration_stream[OF wl2 sp2 w3 r2 pce])
  have w13: "list_all2 wire_line (ls1 @ ls3) (fs1 @ fs3)"
    using w1 w3 by (rule list_all2_appendI)
  have r3: "length q + length (fs1 @ fs3) \<le> RX_QUEUE_SIZE" using room fs fs2 by simp
  have iac: "rx_iteration [] q (a @ c) = Some (p2, q @ map IpcFrame (fs1 @ fs3))"
    by (rule rx_iteration_stream[OF wl2 sp2 w13 r3]) (simp add: a pce)
  show ?thesis using ia ic iac by simp
qed

lemma rx_feed_snoc:
  "rx_feed b q (cs @ [c]) =
     (case rx_feed b q cs of None \<Rightarrow> None | Some (b', q') \<Rightarrow> rx_iteration b' q' c)"
proof (induction cs arbitrary: b q)
  case Nil
  show ?case by (simp split: option.splits)
next
  case (Cons x cs)
  then show ?case by (simp split: option.splits)
qed

lemma rx_feed_chunks:
  assumes v: "list_all2 wire_line ls fs"
    and room: "length q + length fs \<le> RX_QUEUE_SIZE"
  shows "prefix (concat cs) (concat ls) \<Longrightarrow>
         rx_feed [] q cs = rx_iteration [] q (concat cs)"
proof (induction cs rule: rev_induct)
  case Nil
  obtain l0 f0 where w0: "wire_line l0 f0" using wire_line_exists by blast
  have "rx_iteration [] q [] = Some ([], q @ map IpcFrame [])"
    by (rule rx_iteration_stream[OF w0 nil_strict_prefix_line[OF w0], where ls = "[]"])
       (use room in simp_all)
  then show ?case by simp
next
  case (snoc c cs)
  have pre: "prefix (concat cs @ c) (concat ls)"
    using snoc.prems by simp
  then have "prefix (concat cs) (concat ls)"
    by (metis prefix_order.trans prefixI)
  then have ih: "rx_feed [] q cs = rx_iteration [] q (concat cs)" by (rule snoc.IH)
  obtain t q1 where "rx_iteration [] q (concat cs) = Some (t, q1)"
      and "rx_iteration t q1 c = rx_iteration [] q (concat cs @ c)"
    using rx_iteration_split[OF v room pre] by blast
  then show ?case by (simp add: rx_feed_snoc ih)
qed

lemma rx_feed_lines:
  assumes v: "list_all2 wire_line ls fs"
    and room: "length q + length fs \<le> RX_QUEUE_SIZE"
    and c: "concat cs = concat ls"
  shows "rx_feed [] q cs = Some ([], q @ map IpcFrame fs)"
proof -
  obtain l0 f0 where w0: "wire_line l0 f0" using wire_line_exists by blast
  have "rx_feed [] q cs = rx_iteration [] q (concat cs)"
    by (rule rx_feed_chunks[OF v room]) (simp add: c)
  also have "\<dots> = Some ([], q @ map IpcFrame fs)"
    by (rule rx_iteration_stream[OF w0 nil_strict_prefix_line[OF w0] v room]) (simp add: c)
  finally show ?thesis .
qed

lemma wire_lines_of_frames:
  "\<forall>f \<in> set fs. valid_frame f \<Longrightarrow>
   list_all2 wire_line (map send_frame_line fs) (map (\<lambda>f. f\<lparr>ts_hardware := None\<rparr>) fs)"
  by (induction fs) (simp_all add: send_frame_line_wire)

text \<open>
  Claim C1. For every valid frame (payload of at most 8 bytes, identifier within 11 bits,
  or within 29 bits when the frame is extended), one round of the receive loop on the line that
  \<^verbatim>\<open>_send_frame\<close> writes for it puts exactly one frame on the inbound queue, with the same
  identifier, payload and extended flag and without a hardware timestamp, and keeps no
  byte. The line is the marker, the identifier digits, one length digit, two digits for
  each payload byte and the line terminator, so the encoder adds no timestamp.
\<close>

theorem send_frame_round_trip:
  assumes "valid_frame f"
  shows "rx_iteration [] [] (send_frame_line f) = Some ([], [IpcFrame (f\<lparr>ts_hardware := None\<rparr>)])
       \<and> length (send_frame_line f) = (if extended f then 8 else 3) + 2 * length (data f) + 3
       \<and> last (send_frame_line f) = CR"
proof -
  have w: "wire_line (send_frame_line f) (f\<lparr>ts_hardware := None\<rparr>)"
    by (rule send_frame_line_wire[OF assms])
  have r: "length ([]::ipc list) + length [f\<lparr>ts_hardware := None\<rparr>] \<le> RX_QUEUE_SIZE"
    by (simp add: RX_QUEUE_SIZE_def)
  have "rx_iteration [] [] (send_frame_line f)
          = Some ([], [] @ map IpcFrame [f\<lparr>ts_hardware := None\<rparr>])"
    by (rule rx_iteration_stream[OF w nil_strict_prefix_line[OF w], where ls = "[send_frame_line f]"])
       (use w r in simp_all)
  moreover obtain idd pay where "send_frame_line f =
        (if extended f then CHR ''T'' else CHR ''t'') # idd
          @ dec_digit (length (data f)) # pay @ [CR]"
    and "int (length idd) = (if extended f then 8 else 3)"
    and "a2b_hex pay = Some (data f)"
    using w unfolding wire_line_def by auto
  ultimately show ?thesis
    using a2b_hex_length[of pay "data f"]
    by (auto split: if_splits)
qed

theorem send_frame_round_trip_witness:
  "valid_frame \<lparr>frame_id = 0x123, data = [CHR 0xDE, CHR 0xAD], extended = False, ts_hardware = None\<rparr>
   \<and> rx_iteration [] [] (''t1232dead'' @ [CR])
      = Some ([], [IpcFrame \<lparr>frame_id = 0x123, data = [CHR 0xDE, CHR 0xAD], extended = False, ts_hardware = None\<rparr>])"
proof -
  let ?f = "\<lparr>frame_id = 0x123, data = [CHR 0xDE, CHR 0xAD], extended = False, ts_hardware = None\<rparr>"
  have v: "valid_frame ?f" by (simp add: valid_frame_def)
  have l: "send_frame_line ?f = ''t1232dead'' @ [CR]" by code_simp
  from send_frame_round_trip[OF v] v show ?thesis unfolding l by simp
qed

text \<open>
  Claim C2. Take the lines that \<^verbatim>\<open>_send_frame\<close> writes for a sequence of valid frames and cut
  their concatenation into chunks in any way. The receive loop, which keeps the bytes it
  has not consumed and puts each new chunk after them, decodes the same frames from the
  chunks as from the whole stream read at once: the frames of the sequence, in order, with
  nothing left in the buffer. The inbound queue must have room for them.
\<close>

theorem rx_feed_chunk_independent:
  assumes "\<forall>f \<in> set fs. valid_frame f"
    and "length q + length fs \<le> RX_QUEUE_SIZE"
    and "concat chunks = concat (map send_frame_line fs)"
  shows "rx_feed [] q chunks = rx_feed [] q [concat chunks]
       \<and> rx_feed [] q chunks = Some ([], q @ map (\<lambda>f. IpcFrame (f\<lparr>ts_hardware := None\<rparr>)) fs)"
proof -
  let ?gs = "map (\<lambda>f. f\<lparr>ts_hardware := None\<rparr>) fs"
  have w: "list_all2 wire_line (map send_frame_line fs) ?gs"
    by (rule wire_lines_of_frames[OF assms(1)])
  have r: "length q + length ?gs \<le> RX_QUEUE_SIZE" using assms(2) by simp
  have a: "rx_feed [] q chunks = Some ([], q @ map IpcFrame ?gs)"
    by (rule rx_feed_lines[OF w r assms(3)])
  have b: "rx_feed [] q [concat chunks] = Some ([], q @ map IpcFrame ?gs)"
    by (rule rx_feed_lines[OF w r]) (simp add: assms(3))
  show ?thesis using a b by (simp add: comp_def)
qed

theorem rx_feed_chunk_independent_witness:
  "valid_frame \<lparr>frame_id = 0x123, data = [CHR 0xDE, CHR 0xAD], extended = False, ts_hardware = None\<rparr>
   \<and> valid_frame \<lparr>frame_id = 0x456, data = [CHR 0x01], extended = True, ts_hardware = None\<rparr>
   \<and> length ([]::ipc list) + 2 \<le> RX_QUEUE_SIZE
   \<and> rx_feed [] [] [''t12'', ''32dea'', ''d'' @ [CR] @ ''T00000'', [], ''456101'' @ [CR]]
      = Some ([], [IpcFrame \<lparr>frame_id = 0x123, data = [CHR 0xDE, CHR 0xAD], extended = False, ts_hardware = None\<rparr>,
                   IpcFrame \<lparr>frame_id = 0x456, data = [CHR 0x01], extended = True, ts_hardware = None\<rparr>])"
proof -
  let ?f = "\<lparr>frame_id = 0x123, data = [CHR 0xDE, CHR 0xAD], extended = False, ts_hardware = None\<rparr>"
  let ?g = "\<lparr>frame_id = 0x456, data = [CHR 0x01], extended = True, ts_hardware = None\<rparr>"
  let ?cs = "[''t12'', ''32dea'', ''d'' @ [CR] @ ''T00000'', [], ''456101'' @ [CR]]"
  have v: "\<forall>f \<in> set [?f, ?g]. valid_frame f" by (simp add: valid_frame_def)
  have r: "length ([]::ipc list) + length [?f, ?g] \<le> RX_QUEUE_SIZE" by (simp add: RX_QUEUE_SIZE_def)
  have c: "concat ?cs = concat (map send_frame_line [?f, ?g])" by code_simp
  have "rx_feed [] [] ?cs = Some ([], [] @ map (\<lambda>f. IpcFrame (f\<lparr>ts_hardware := None\<rparr>)) [?f, ?g])"
    by (rule rx_feed_chunk_independent[OF v r c, THEN conjunct2])
  with v r show ?thesis by simp
qed

subsection \<open>Fragments with any terminator and with a timestamp\<close>

lemma parse_fragment_header_any:
  fixes m :: char and idd :: string and nd :: nat
  defines "k \<equiv> (if m = CHR ''T'' then 8 else 3) :: int"
  assumes buf: "buf = pre @ m # idd @ dec_digit nd # tail"
    and pos: "pos = int (length pre)"
    and idl: "int (length idd) = k"
    and idp: "py_int16_decoded idd = Some pid"
    and nd: "nd \<le> 8"
  shows "py_index buf pos = Some m"
    and "py_int16_decoded (py_slice buf (pos + 1) (pos + 1 + k)) = Some pid"
    and "py_index buf (pos + 1 + k) = Some (dec_digit nd)"
    and "int (length buf) - pos = k + 2 + int (length tail)"
proof -
  show "py_index buf pos = Some m"
    by (simp add: buf pos py_index_at)
  have "py_slice buf (pos + 1) (pos + 1 + k) = idd"
    using py_slice_at[of "pos + 1" "pre @ [m]" "pos + 1 + k" idd "dec_digit nd # tail"]
    by (simp add: buf pos idl)
  then show "py_int16_decoded (py_slice buf (pos + 1) (pos + 1 + k)) = Some pid"
    by (simp add: idp)
  show "py_index buf (pos + 1 + k) = Some (dec_digit nd)"
    using py_index_at[of "pos + 1 + k" "pre @ m # idd" "dec_digit nd" tail]
    by (simp add: buf pos idl[symmetric])
  show "int (length buf) - pos = k + 2 + int (length tail)"
    by (simp add: buf pos idl[symmetric])
qed

lemma parse_fragment_terminated:
  fixes m :: char and idd :: string and d :: bytes
  defines "k \<equiv> (if m = CHR ''T'' then 8 else 3) :: int"
  assumes buf: "buf = pre @ m # idd @ dec_digit (length d) # pay @ tb # rest"
    and pos: "pos = int (length pre)"
    and idl: "int (length idd) = k"
    and idp: "py_int16_decoded idd = Some pid"
    and nd: "length d \<le> 8"
    and pay: "a2b_hex pay = Some d"
    and tb: "tb \<notin> set ''0123456789ABCDEF''"
  shows "parse_fragment buf pos =
           Parsed \<lparr>frame_id = pid, data = d, extended = (m = CHR ''T''), ts_hardware = None\<rparr>
                  (pos + int (length (m # idd @ dec_digit (length d) # pay @ [tb])))"
proof -
  let ?n = "int (length d)"
  note h = parse_fragment_header_any[OF buf pos idl[unfolded k_def] idp nd, folded k_def]
  have lp: "length pay = 2 * length d" by (rule a2b_hex_length[OF pay])
  have pl: "int (of_char (dec_digit (length d))) - 48 = ?n"
    using nd by (simp add: of_char_dec_digit)
  have c1: "\<not> (k + 2 + int (length (pay @ tb # rest)) < k + 2)" by simp
  have c2: "\<not> (k + 2 + int (length (pay @ tb # rest)) < 2 + k + ?n * 2 + 1)"
    by (simp add: lp)
  have c3: "\<not> (?n > 8)" using nd by simp
  have a4: "py_index buf (pos + (2 + k + ?n * 2 + 1) - 1) = Some tb"
    using py_index_at[of "pos + (2 + k + ?n * 2 + 1) - 1"
        "pre @ m # idd @ dec_digit (length d) # pay" tb rest]
    by (simp add: buf pos idl[symmetric] lp)
  have a5: "py_slice buf (pos + 2 + k) (pos + 2 + k + ?n * 2) = pay"
    using py_slice_at[of "pos + 2 + k" "pre @ m # idd @ [dec_digit (length d)]"
        "pos + 2 + k + ?n * 2" pay "tb # rest"]
    by (simp add: buf pos idl[symmetric] lp)
  have "parse_fragment buf pos =
          Parsed \<lparr>frame_id = pid, data = d, extended = (k = 8),
                   ts_hardware = None\<rparr> (pos + (2 + k + ?n * 2 + 1))"
    by (simp only: parse_fragment_def Let_def k_def[symmetric] h pl c1 c2 c3 a4 a5 pay
        tb option.case if_True if_False simp_thms)
  then show ?thesis
    using idl by (auto simp: k_def lp split: if_splits)
qed

lemma parse_fragment_stamped:
  fixes m :: char and idd :: string and d :: bytes
  defines "k \<equiv> (if m = CHR ''T'' then 8 else 3) :: int"
  assumes buf: "buf = pre @ m # idd @ dec_digit (length d) # pay @ tb # t3 @ rest"
    and pos: "pos = int (length pre)"
    and idl: "int (length idd) = k"
    and idp: "py_int16_decoded idd = Some pid"
    and nd: "length d \<le> 8"
    and pay: "a2b_hex pay = Some d"
    and tb: "tb \<in> set ''0123456789ABCDEF''"
    and t3: "length t3 = 3"
  shows "parse_fragment buf pos =
           (case py_int16 (tb # t3) of
              None \<Rightarrow> Malformed (pos + int (length (m # idd @ dec_digit (length d) # pay @ tb # t3)))
            | Some ts \<Rightarrow>
                Parsed \<lparr>frame_id = pid, data = d, extended = (m = CHR ''T''),
                        ts_hardware = Some ts\<rparr>
                  (pos + int (length (m # idd @ dec_digit (length d) # pay @ tb # t3))))"
proof -
  let ?n = "int (length d)"
  note h = parse_fragment_header_any[OF buf pos idl[unfolded k_def] idp nd, folded k_def]
  have lp: "length pay = 2 * length d" by (rule a2b_hex_length[OF pay])
  have pl: "int (of_char (dec_digit (length d))) - 48 = ?n"
    using nd by (simp add: of_char_dec_digit)
  have c1: "\<not> (k + 2 + int (length (pay @ tb # t3 @ rest)) < k + 2)" by simp
  have c2: "\<not> (k + 2 + int (length (pay @ tb # t3 @ rest)) < 2 + k + ?n * 2 + 1)"
    by (simp add: lp)
  have c2': "\<not> (k + 2 + int (length (pay @ tb # t3 @ rest)) < 2 + k + ?n * 2 + 1 + 3)"
    by (simp add: lp t3)
  have c3: "\<not> (?n > 8)" using nd by simp
  have a4: "py_index buf (pos + (2 + k + ?n * 2 + 1) - 1) = Some tb"
    using py_index_at[of "pos + (2 + k + ?n * 2 + 1) - 1"
        "pre @ m # idd @ dec_digit (length d) # pay" tb "t3 @ rest"]
    by (simp add: buf pos idl[symmetric] lp)
  have a5: "py_slice buf (pos + 2 + k) (pos + 2 + k + ?n * 2) = pay"
    using py_slice_at[of "pos + 2 + k" "pre @ m # idd @ [dec_digit (length d)]"
        "pos + 2 + k + ?n * 2" pay "tb # t3 @ rest"]
    by (simp add: buf pos idl[symmetric] lp)
  have a6: "py_slice buf (pos + (2 + k + ?n * 2 + 1 + 3) - 4) (pos + (2 + k + ?n * 2 + 1 + 3))
              = tb # t3"
    using py_slice_at[of "pos + (2 + k + ?n * 2 + 1 + 3) - 4"
        "pre @ m # idd @ dec_digit (length d) # pay"
        "pos + (2 + k + ?n * 2 + 1 + 3)" "tb # t3" rest]
    by (simp add: buf pos idl[symmetric] lp t3)
  have e1: "pos + (2 + k + ?n * 2 + 1 + 3)
        = pos + int (length (m # idd @ dec_digit (length d) # pay @ tb # t3))"
    by (simp add: idl[symmetric] lp t3)
  have e2: "(k = 8) = (m = CHR ''T'')" by (simp add: k_def)
  have "parse_fragment buf pos =
          (case py_int16 (tb # t3) of
             None \<Rightarrow> Malformed (pos + (2 + k + ?n * 2 + 1 + 3))
           | Some ts \<Rightarrow>
               Parsed \<lparr>frame_id = pid, data = d, extended = (k = 8),
                   ts_hardware = Some ts\<rparr> (pos + (2 + k + ?n * 2 + 1 + 3)))"
    by (simp only: parse_fragment_def Let_def k_def[symmetric] h pl c1 c2 c2' c3 a4 a5 a6 pay
        tb option.case if_True if_False simp_thms)
  then show ?thesis unfolding e1 e2 .
qed

lemma rx_scan_step_skip:
  "find_marker buf p0 = find_marker buf p1 \<Longrightarrow> rx_scan_step buf p0 q = rx_scan_step buf p1 q"
  by (simp add: rx_scan_step_def)

subsection \<open>Test vectors\<close>

lemma dec_digit_chars:
  "dec_digit 0 = CHR ''0''" "dec_digit 8 = CHR ''8''"
  by code_simp+

lemma py_int16_decoded_123: "py_int16_decoded ''123'' = Some 0x123"
proof -
  have "py_int16_decoded ''123'' = Some (digits_value ''123'')"
    by (rule py_int16_decoded_hex) (simp_all add: hex_value_def)
  then show ?thesis by (simp add: digits_value_def hex_value_def)
qed

lemma py_int16_0ZZZ: "py_int16 ''0ZZZ'' = None"
  by (simp add: py_int16_def Let_def py_isspace_def digit_or_underscore_def hex_value_def)

lemma py_int16_ABCD: "py_int16 ''ABCD'' = Some 0xABCD"
proof -
  have "py_int16 ''ABCD'' = Some (digits_value ''ABCD'')"
    by (rule py_int16_hex) (simp_all add: hex_value_def)
  then show ?thesis by (simp add: digits_value_def hex_value_def)
qed

lemma a2b_hex_end_to_end:
  "a2b_hex ''DEADBEEF12345678'' =
     Some [CHR 0xDE, CHR 0xAD, CHR 0xBE, CHR 0xEF, CHR 0x12, CHR 0x34, CHR 0x56, CHR 0x78]"
  by code_simp

lemma end_to_end_wire:
  "wire_line (''t1238DEADBEEF12345678'' @ [CR])
     \<lparr>frame_id = 0x123,
      data = [CHR 0xDE, CHR 0xAD, CHR 0xBE, CHR 0xEF, CHR 0x12, CHR 0x34, CHR 0x56, CHR 0x78],
      extended = False, ts_hardware = None\<rparr>"
proof -
  let ?d = "[CHR 0xDE, CHR 0xAD, CHR 0xBE, CHR 0xEF, CHR 0x12, CHR 0x34, CHR 0x56, CHR 0x78]"
  have n: "length ?d = 8" by simp
  have l: "''t1238DEADBEEF12345678'' @ [CR] =
      CHR ''t'' # ''123'' @ dec_digit (length ?d) # ''DEADBEEF12345678'' @ [CR]"
    unfolding n by (simp add: dec_digit_chars)
  have v: "digits_value ''123'' = 0x123"
    by (simp add: digits_value_def hex_value_def)
  have h: "\<forall>c \<in> set ''123''. hex_value c \<noteq> None"
    by (simp add: hex_value_def)
  show ?thesis
    unfolding wire_line_def
    apply (rule exI[of _ "''123''"])
    apply (rule exI[of _ "''DEADBEEF12345678''"])
    apply (simp only: CANFrame.simps if_False l a2b_hex_end_to_end v n)
    apply (simp add: hex_value_def)
    done
qed

lemma wire_4560:
  "wire_line (''t4560'' @ [CR]) \<lparr>frame_id = 0x456, data = [], extended = False, ts_hardware = None\<rparr>"
  unfolding wire_line_def
  by (intro exI[of _ "''456''"] exI[of _ "[]"])
     (simp add: dec_digit_chars digits_value_def hex_value_def)

section \<open>The end-to-end vector\<close>

text \<open>
  Claim C4, as the code has it. The bytes \<^verbatim>\<open>t1238DEADBEEF12345678\<close> and the line terminator,
  read in one piece or cut at any place into two reads, give exactly one standard frame
  with the identifier 0x123 and no hardware timestamp. The digit \<^verbatim>\<open>8\<close> after the
  identifier is the length, so the payload is the eight bytes
  DE AD BE EF 12 34 56 78.
\<close>

theorem end_to_end_decode:
  "rx_feed [] [] [take k (''t1238DEADBEEF12345678'' @ [CR]), drop k (''t1238DEADBEEF12345678'' @ [CR])]
     = Some ([], [IpcFrame \<lparr>frame_id = 0x123,
          data = [CHR 0xDE, CHR 0xAD, CHR 0xBE, CHR 0xEF, CHR 0x12, CHR 0x34, CHR 0x56, CHR 0x78],
          extended = False, ts_hardware = None\<rparr>])
   \<and> rx_feed [] [] [''t1238DEADBEEF12345678'' @ [CR]]
     = Some ([], [IpcFrame \<lparr>frame_id = 0x123,
          data = [CHR 0xDE, CHR 0xAD, CHR 0xBE, CHR 0xEF, CHR 0x12, CHR 0x34, CHR 0x56, CHR 0x78],
          extended = False, ts_hardware = None\<rparr>])"
proof -
  let ?s = "''t1238DEADBEEF12345678'' @ [CR]"
  let ?F = "\<lparr>frame_id = 0x123,
          data = [CHR 0xDE, CHR 0xAD, CHR 0xBE, CHR 0xEF, CHR 0x12, CHR 0x34, CHR 0x56, CHR 0x78],
          extended = False, ts_hardware = None\<rparr>"
  have w: "list_all2 wire_line [?s] [?F]" using end_to_end_wire by simp
  have r: "length ([]::ipc list) + length [?F] \<le> RX_QUEUE_SIZE" by (simp add: RX_QUEUE_SIZE_def)
  have a: "rx_feed [] [] [take k ?s, drop k ?s] = Some ([], [] @ map IpcFrame [?F])"
    by (rule rx_feed_lines[OF w r]) simp
  have b: "rx_feed [] [] [?s] = Some ([], [] @ map IpcFrame [?F])"
    by (rule rx_feed_lines[OF w r]) simp
  from a b show ?thesis by simp
qed

theorem end_to_end_decode_witness:
  "rx_feed [] [] [''t1238DEAD'', ''BEEF12345678'' @ [CR]]
     = Some ([], [IpcFrame \<lparr>frame_id = 0x123,
          data = [CHR 0xDE, CHR 0xAD, CHR 0xBE, CHR 0xEF, CHR 0x12, CHR 0x34, CHR 0x56, CHR 0x78],
          extended = False, ts_hardware = None\<rparr>])"
  using end_to_end_decode[of 9, THEN conjunct1] by simp

text \<open>The payload is not 8D EA DB EE F1 23 45 67, which would count the length digit in.\<close>

theorem end_to_end_payload_counterexample:
  "rx_feed [] [] [''t1238DEADBEEF12345678'' @ [CR]]
     \<noteq> Some ([], [IpcFrame \<lparr>frame_id = 0x123,
          data = [CHR 0x8D, CHR 0xEA, CHR 0xDB, CHR 0xEE, CHR 0xF1, CHR 0x23, CHR 0x45, CHR 0x67],
          extended = False, ts_hardware = None\<rparr>])"
proof -
  let ?s = "''t1238DEADBEEF12345678'' @ [CR]"
  let ?F = "\<lparr>frame_id = 0x123,
          data = [CHR 0xDE, CHR 0xAD, CHR 0xBE, CHR 0xEF, CHR 0x12, CHR 0x34, CHR 0x56, CHR 0x78],
          extended = False, ts_hardware = None\<rparr>"
  have w: "list_all2 wire_line [?s] [?F]" using end_to_end_wire by simp
  have r: "length ([]::ipc list) + length [?F] \<le> RX_QUEUE_SIZE" by (simp add: RX_QUEUE_SIZE_def)
  have "rx_feed [] [] [?s] = Some ([], [] @ map IpcFrame [?F])"
    by (rule rx_feed_lines[OF w r]) simp
  then show ?thesis by simp
qed

section \<open>Detection of the hardware timestamp\<close>

lemma parse_fragment_stamped_short:
  fixes m :: char and idd :: string and d :: bytes
  defines "k \<equiv> (if m = CHR ''T'' then 8 else 3) :: int"
  assumes buf: "buf = pre @ m # idd @ dec_digit (length d) # pay @ tb # rest"
    and pos: "pos = int (length pre)"
    and idl: "int (length idd) = k"
    and idp: "py_int16_decoded idd = Some pid"
    and nd: "length d \<le> 8"
    and pay: "a2b_hex pay = Some d"
    and tb: "tb \<in> set ''0123456789ABCDEF''"
    and short: "length rest < 3"
  shows "parse_fragment buf pos = NeedMore"
proof -
  let ?n = "int (length d)"
  note h = parse_fragment_header_any[OF buf pos idl[unfolded k_def] idp nd, folded k_def]
  have lp: "length pay = 2 * length d" by (rule a2b_hex_length[OF pay])
  have pl: "int (of_char (dec_digit (length d))) - 48 = ?n"
    using nd by (simp add: of_char_dec_digit)
  have c1: "\<not> (k + 2 + int (length (pay @ tb # rest)) < k + 2)" by simp
  have c2: "\<not> (k + 2 + int (length (pay @ tb # rest)) < 2 + k + ?n * 2 + 1)"
    by (simp add: lp)
  have c2': "k + 2 + int (length (pay @ tb # rest)) < 2 + k + ?n * 2 + 1 + 3"
    using short by (simp add: lp)
  have c3: "\<not> (?n > 8)" using nd by simp
  have a4: "py_index buf (pos + (2 + k + ?n * 2 + 1) - 1) = Some tb"
    using py_index_at[of "pos + (2 + k + ?n * 2 + 1) - 1"
        "pre @ m # idd @ dec_digit (length d) # pay" tb rest]
    by (simp add: buf pos idl[symmetric] lp)
  show ?thesis
    by (simp only: parse_fragment_def Let_def k_def[symmetric] h pl c1 c2 c2' c3 a4
        tb option.case if_True if_False simp_thms)
qed

text \<open>
  Claim C5, as the code has it. Take a fragment in the buffer whose identifier field
  parses, whose length digit is 0 to 8 and whose payload digits decode. The byte after the
  payload digits alone decides whether the fragment carries a hardware timestamp, and the
  test is membership in the sixteen characters \<^verbatim>\<open>0123456789ABCDEF\<close>. With any other byte
  there, the lower-case letters \<^verbatim>\<open>a\<close> to \<^verbatim>\<open>f\<close> included, the fragment ends at that byte
  and gives a frame without timestamp. With one of the sixteen characters there, that
  byte and the three bytes after it are the timestamp: the decoder waits for more input
  while fewer than three bytes follow, it gives the frame with the timestamp when the four
  bytes parse as a hexadecimal number, as four hexadecimal digits always do, and it
  reports a malformed fragment when they do not.
\<close>

theorem timestamp_detection:
  assumes "buf = pre @ m # idd @ dec_digit (length d) # pay @ term_byte # rest"
    and "int (length idd) = (if m = CHR ''T'' then 8 else 3)"
    and "py_int16_decoded idd = Some packet_id"
    and "length d \<le> 8"
    and "a2b_hex pay = Some d"
  shows "(term_byte \<notin> set ''0123456789ABCDEF'' \<longrightarrow>
            parse_fragment buf (int (length pre)) =
              Parsed \<lparr>frame_id = packet_id, data = d, extended = (m = CHR ''T''),
                      ts_hardware = None\<rparr>
                (int (length pre) + (int (length idd) + 2 * int (length d) + 3)))
       \<and> (term_byte \<in> set ''0123456789ABCDEF'' \<and> length rest < 3 \<longrightarrow>
            parse_fragment buf (int (length pre)) = NeedMore)
       \<and> (term_byte \<in> set ''0123456789ABCDEF'' \<and> 3 \<le> length rest \<longrightarrow>
            parse_fragment buf (int (length pre)) =
              (case py_int16 (term_byte # take 3 rest) of
                 None \<Rightarrow> Malformed (int (length pre) + (int (length idd) + 2 * int (length d) + 6))
               | Some ts \<Rightarrow>
                   Parsed \<lparr>frame_id = packet_id, data = d, extended = (m = CHR ''T''),
                           ts_hardware = Some ts\<rparr>
                     (int (length pre) + (int (length idd) + 2 * int (length d) + 6))))
       \<and> (term_byte \<in> set ''0123456789ABCDEF'' \<and> 3 \<le> length rest
            \<and> (\<forall>c \<in> set (take 3 rest). hex_value c \<noteq> None) \<longrightarrow>
            parse_fragment buf (int (length pre)) =
              Parsed \<lparr>frame_id = packet_id, data = d, extended = (m = CHR ''T''),
                      ts_hardware = Some (digits_value (term_byte # take 3 rest))\<rparr>
                (int (length pre) + (int (length idd) + 2 * int (length d) + 6)))"
proof -
  let ?pos = "int (length pre)"
  have lp: "length pay = 2 * length d" by (rule a2b_hex_length[OF assms(5)])
  have plain: "parse_fragment buf ?pos =
      Parsed \<lparr>frame_id = packet_id, data = d, extended = (m = CHR ''T''), ts_hardware = None\<rparr>
        (?pos + (int (length idd) + 2 * int (length d) + 3))"
    if "term_byte \<notin> set ''0123456789ABCDEF''"
    using parse_fragment_terminated[OF assms(1) refl assms(2,3,4,5) that] by (simp add: lp)
  have short: "parse_fragment buf ?pos = NeedMore"
    if "term_byte \<in> set ''0123456789ABCDEF''" "length rest < 3"
    by (rule parse_fragment_stamped_short[OF assms(1) refl assms(2,3,4,5) that])
  have stamped: "parse_fragment buf ?pos =
      (case py_int16 (term_byte # take 3 rest) of
         None \<Rightarrow> Malformed (?pos + (int (length idd) + 2 * int (length d) + 6))
       | Some ts \<Rightarrow>
           Parsed \<lparr>frame_id = packet_id, data = d, extended = (m = CHR ''T''),
                   ts_hardware = Some ts\<rparr>
             (?pos + (int (length idd) + 2 * int (length d) + 6)))"
    if t: "term_byte \<in> set ''0123456789ABCDEF''" and l: "3 \<le> length rest"
  proof -
    have b: "buf = pre @ m # idd @ dec_digit (length d) # pay @ term_byte # take 3 rest @ drop 3 rest"
      using assms(1) by simp
    have l3: "length (take 3 rest) = 3" using l by simp
    have len: "int (length (m # idd @ dec_digit (length d) # pay @ term_byte # take 3 rest))
        = int (length idd) + 2 * int (length d) + 6"
      using l by (simp add: lp)
    show ?thesis
      using parse_fragment_stamped[OF b refl assms(2,3,4,5) t l3] unfolding len .
  qed
  have digits: "parse_fragment buf ?pos =
      Parsed \<lparr>frame_id = packet_id, data = d, extended = (m = CHR ''T''),
              ts_hardware = Some (digits_value (term_byte # take 3 rest))\<rparr>
        (?pos + (int (length idd) + 2 * int (length d) + 6))"
    if t: "term_byte \<in> set ''0123456789ABCDEF''" and l: "3 \<le> length rest"
      and h: "\<forall>c \<in> set (take 3 rest). hex_value c \<noteq> None"
  proof -
    have "hex_value term_byte \<noteq> None" using t by (auto simp: hex_value_def)
    with h have "\<forall>c \<in> set (term_byte # take 3 rest). hex_value c \<noteq> None" by simp
    then have "py_int16 (term_byte # take 3 rest) = Some (digits_value (term_byte # take 3 rest))"
      by (rule py_int16_hex) simp
    with stamped[OF t l] show ?thesis by simp
  qed
  from plain short stamped digits show ?thesis by blast
qed

lemma rx_scan_step_malformed:
  "find_marker buf pos = Some p \<Longrightarrow> \<not> int (length buf) \<le> p \<Longrightarrow>
   parse_fragment buf p = Malformed e \<Longrightarrow> rx_scan_step buf pos q = Continue (e + 1) q"
  by (simp add: rx_scan_step_def)

lemma rx_scan_step_end:
  "find_marker buf pos = Some p \<Longrightarrow> int (length buf) \<le> p \<Longrightarrow>
   rx_scan_step buf pos q = Stop (Scanned p q)"
  by (simp add: rx_scan_step_def)

lemma parse_t1230ABCD:
  "parse_fragment (''t1230ABCD'' @ [CR]) 0 =
     Parsed \<lparr>frame_id = 0x123, data = [], extended = False, ts_hardware = Some 0xABCD\<rparr> 9"
proof -
  have b: "''t1230ABCD'' @ [CR] =
      [] @ CHR ''t'' # ''123'' @ dec_digit (length ([]::bytes)) # [] @ CHR ''A'' # ''BCD'' @ [CR]"
    by (simp add: dec_digit_chars)
  show ?thesis
    by (subst parse_fragment_stamped[OF b, where pid = "0x123"])
       (simp_all add: py_int16_decoded_123 py_int16_ABCD)
qed

lemma parse_t1230abcd:
  "parse_fragment (''t1230abcd'' @ [CR]) 0 =
     Parsed \<lparr>frame_id = 0x123, data = [], extended = False, ts_hardware = None\<rparr> 6"
proof -
  have b: "''t1230abcd'' @ [CR] =
      [] @ CHR ''t'' # ''123'' @ dec_digit (length ([]::bytes)) # [] @ CHR ''a'' # (''bcd'' @ [CR])"
    by (simp add: dec_digit_chars)
  show ?thesis
    by (subst parse_fragment_terminated[OF b, where pid = "0x123"])
       (simp_all add: py_int16_decoded_123)
qed

theorem timestamp_detection_witness:
  "parse_fragment (''t1230ABCD'' @ [CR]) 0 =
     Parsed \<lparr>frame_id = 0x123, data = [], extended = False, ts_hardware = Some 0xABCD\<rparr> 9
   \<and> parse_fragment (''t1230AB'') 0 = NeedMore
   \<and> parse_fragment (''t1230'' @ [CR]) 0 =
     Parsed \<lparr>frame_id = 0x123, data = [], extended = False, ts_hardware = None\<rparr> 6"
proof -
  note c2 = conjunct2
  have b1: "''t1230ABCD'' @ [CR] =
      [] @ CHR ''t'' # ''123'' @ dec_digit (length ([]::bytes)) # [] @ CHR ''A'' # (''BCD'' @ [CR])"
    by (simp add: dec_digit_chars)
  have b2: "''t1230AB'' =
      [] @ CHR ''t'' # ''123'' @ dec_digit (length ([]::bytes)) # [] @ CHR ''A'' # ''B''"
    by (simp add: dec_digit_chars)
  have b3: "''t1230'' @ [CR] =
      [] @ CHR ''t'' # ''123'' @ dec_digit (length ([]::bytes)) # [] @ CR # []"
    by (simp add: dec_digit_chars)
  have i: "int (length ''123'') = (if CHR ''t'' = CHR ''T'' then 8 else 3)" by simp
  have n: "length ([]::bytes) \<le> 8" by simp
  have p: "a2b_hex [] = Some []" by simp
  have h1: "CHR ''A'' \<in> set ''0123456789ABCDEF'' \<and> 3 \<le> length (''BCD'' @ [CR])
      \<and> (\<forall>c \<in> set (take 3 (''BCD'' @ [CR])). hex_value c \<noteq> None)"
    by (simp add: hex_value_def)
  have h2: "CHR ''A'' \<in> set ''0123456789ABCDEF'' \<and> length ''B'' < 3" by simp
  have v: "digits_value (CHR ''A'' # take 3 (''BCD'' @ [CR])) = 0xABCD"
    by (simp add: digits_value_def hex_value_def)
  have "parse_fragment (''t1230ABCD'' @ [CR]) (int (length ([]::bytes))) =
      Parsed \<lparr>frame_id = 0x123, data = [], extended = (CHR ''t'' = CHR ''T''),
              ts_hardware = Some (digits_value (CHR ''A'' # take 3 (''BCD'' @ [CR])))\<rparr>
        (int (length ([]::bytes)) + (int (length ''123'') + 2 * int (length ([]::bytes)) + 6))"
    by (rule timestamp_detection[OF b1 i py_int16_decoded_123 n p,
          THEN c2, THEN c2, THEN c2, THEN mp, OF h1])
  then have a1: "parse_fragment (''t1230ABCD'' @ [CR]) 0 =
      Parsed \<lparr>frame_id = 0x123, data = [], extended = False, ts_hardware = Some 0xABCD\<rparr> 9"
    unfolding v by simp
  have "parse_fragment (''t1230AB'') (int (length ([]::bytes))) = NeedMore"
    by (rule timestamp_detection[OF b2 i py_int16_decoded_123 n p,
          THEN c2, THEN conjunct1, THEN mp, OF h2])
  then have a2: "parse_fragment (''t1230AB'') 0 = NeedMore" by simp
  have "parse_fragment (''t1230'' @ [CR]) (int (length ([]::bytes))) =
      Parsed \<lparr>frame_id = 0x123, data = [], extended = (CHR ''t'' = CHR ''T''), ts_hardware = None\<rparr>
        (int (length ([]::bytes)) + (int (length ''123'') + 2 * int (length ([]::bytes)) + 3))"
    by (rule timestamp_detection[OF b3 i py_int16_decoded_123 n p,
          THEN conjunct1, THEN mp, OF CR_not_upper_hex])
  then have a3: "parse_fragment (''t1230'' @ [CR]) 0 =
      Parsed \<lparr>frame_id = 0x123, data = [], extended = False, ts_hardware = None\<rparr> 6"
    by simp
  from a1 a2 a3 show ?thesis by (intro conjI)
qed

text \<open>
  A fragment whose timestamp starts with the lower-case digit \<^verbatim>\<open>a\<close>: the byte at the
  terminator position is a hexadecimal digit, and the frame has no timestamp.
\<close>

theorem timestamp_lower_case_counterexample:
  "py_index (''t1230abcd'' @ [CR]) 5 = Some (CHR ''a'')
   \<and> hex_value (CHR ''a'') = Some 10
   \<and> parse_fragment (''t1230abcd'' @ [CR]) 0 =
       Parsed \<lparr>frame_id = 0x123, data = [], extended = False, ts_hardware = None\<rparr> 6"
  using parse_t1230abcd by (simp add: py_index_def hex_value_def)

section \<open>The terminator byte\<close>

text \<open>
  Claim C9. Take a fragment in the buffer whose identifier field parses, whose length
  digit is 0 to 8 and whose payload digits decode. If the byte after the payload is not
  one of the sixteen upper-case hexadecimal digits, whatever else it is, the round of the
  scan loop at the marker accepts the fragment: it puts the frame, without a timestamp,
  on the inbound queue and goes on right after that byte.
\<close>

theorem terminator_not_validated:
  assumes "buf = pre @ m # idd @ dec_digit (length d) # pay @ term_byte # rest"
    and "m = CHR ''T'' \<or> m = CHR ''t''"
    and "int (length idd) = (if m = CHR ''T'' then 8 else 3)"
    and "py_int16_decoded idd = Some packet_id"
    and "length d \<le> 8"
    and "a2b_hex pay = Some d"
    and "term_byte \<notin> set ''0123456789ABCDEF''"
    and "length q < RX_QUEUE_SIZE"
  shows "rx_scan_step buf (int (length pre)) q =
           Continue (int (length pre) + (int (length idd) + 2 * int (length d) + 3))
             (q @ [IpcFrame \<lparr>frame_id = packet_id, data = d, extended = (m = CHR ''T''),
                             ts_hardware = None\<rparr>])"
proof -
  let ?pos = "int (length pre)"
  have fm: "find_marker buf ?pos = Some ?pos"
    unfolding assms(1) by (rule find_marker_here[OF refl assms(2)])
  have lt: "\<not> length buf \<le> length pre" unfolding assms(1) by simp
  have lp: "length pay = 2 * length d" by (rule a2b_hex_length[OF assms(6)])
  have pf: "parse_fragment buf ?pos =
      Parsed \<lparr>frame_id = packet_id, data = d, extended = (m = CHR ''T''), ts_hardware = None\<rparr>
        (?pos + int (length (m # idd @ dec_digit (length d) # pay @ [term_byte])))"
    by (rule parse_fragment_terminated[OF assms(1) refl assms(3,4,5,6,7)])
  show ?thesis
    by (simp add: rx_scan_step_def fm lt pf put_nowait_room[OF assms(8)] lp)
qed

theorem terminator_not_validated_witness:
  "rx_scan_step (''t1230x'') 0 [] =
     Continue 6 [IpcFrame \<lparr>frame_id = 0x123, data = [], extended = False, ts_hardware = None\<rparr>]
   \<and> rx_scan_step (''t1230'' @ [CHR 0x0A]) 0 [] =
     Continue 6 [IpcFrame \<lparr>frame_id = 0x123, data = [], extended = False, ts_hardware = None\<rparr>]"
proof -
  have b1: "''t1230x'' = [] @ CHR ''t'' # ''123'' @ dec_digit (length ([]::bytes)) # [] @ CHR ''x'' # []"
    by (simp add: dec_digit_chars)
  have b2: "''t1230'' @ [CHR 0x0A] =
      [] @ CHR ''t'' # ''123'' @ dec_digit (length ([]::bytes)) # [] @ CHR 0x0A # []"
    by (simp add: dec_digit_chars)
  have r: "length ([]::ipc list) < RX_QUEUE_SIZE" by (simp add: RX_QUEUE_SIZE_def)
  have "rx_scan_step (''t1230x'') (int (length ([]::bytes))) [] =
      Continue (int (length ([]::bytes)) + (int (length ''123'') + 2 * int (length ([]::bytes)) + 3))
        ([] @ [IpcFrame \<lparr>frame_id = 0x123, data = [], extended = (CHR ''t'' = CHR ''T''),
                         ts_hardware = None\<rparr>])"
    by (rule terminator_not_validated[OF b1 _ _ py_int16_decoded_123 _ _ _ r]) simp_all
  moreover have "rx_scan_step (''t1230'' @ [CHR 0x0A]) (int (length ([]::bytes))) [] =
      Continue (int (length ([]::bytes)) + (int (length ''123'') + 2 * int (length ([]::bytes)) + 3))
        ([] @ [IpcFrame \<lparr>frame_id = 0x123, data = [], extended = (CHR ''t'' = CHR ''T''),
                         ts_hardware = None\<rparr>])"
    by (rule terminator_not_validated[OF b2 _ _ py_int16_decoded_123 _ _ _ r]) simp_all
  ultimately show ?thesis by simp
qed

section \<open>The position after a malformed timestamp\<close>

text \<open>
  Claim C6 at the buffer \<^verbatim>\<open>t12300ZZZt4560\<close> followed by the line terminator. The first
  fragment has the marker at position 0 and a timestamp \<^verbatim>\<open>0ZZZ\<close> that does not parse. The
  position has already been moved past the fragment when the timestamp is parsed, so the
  scan goes on at position 10 and not at position 1; the marker of the second fragment, at
  position 9, is skipped and no frame is decoded. Going on at position 1 decodes the
  second frame.
\<close>

theorem timestamp_error_resume_position:
  "rx_scan_step (''t12300ZZZt4560'' @ [CR]) 0 [] = Continue 10 []
   \<and> rx_scan (''t12300ZZZt4560'' @ [CR]) 0 [] = Some (Scanned 15 [])
   \<and> rx_scan (''t12300ZZZt4560'' @ [CR]) 1 [] =
       Some (Scanned 15 [IpcFrame \<lparr>frame_id = 0x456, data = [], extended = False,
                                    ts_hardware = None\<rparr>])"
proof -
  let ?buf = "''t12300ZZZt4560'' @ [CR]"
  let ?F = "\<lparr>frame_id = 0x456, data = [], extended = False, ts_hardware = None\<rparr>"
  have b: "?buf = [] @ CHR ''t'' # ''123'' @ dec_digit (length ([]::bytes)) # []
                    @ CHR ''0'' # ''ZZZ'' @ (''t4560'' @ [CR])"
    by (simp add: dec_digit_chars)
  have pf: "parse_fragment ?buf 0 = Malformed 9"
    by (subst parse_fragment_stamped[OF b, where pid = "0x123"])
       (simp_all add: py_int16_decoded_123 py_int16_0ZZZ)
  have fm0: "find_marker ?buf 0 = Some 0"
    using find_marker_here[of 0 "[]" "CHR ''t''" "''12300ZZZt4560'' @ [CR]"] by simp
  have "rx_scan_step ?buf 0 [] = Continue (9 + 1) []"
    by (rule rx_scan_step_malformed[OF fm0 _ pf]) simp
  then have s0: "rx_scan_step ?buf 0 [] = Continue 10 []" by simp
  have fm10: "find_marker ?buf 10 = Some 15"
  proof -
    have "find_marker (''t12300ZZZt'' @ (''4560'' @ [CR]) @ []) (int (length ''t12300ZZZt''))
        = find_marker (''t12300ZZZt'' @ (''4560'' @ [CR]) @ [])
            (int (length ''t12300ZZZt'') + int (length (''4560'' @ [CR])))"
      by (rule find_marker_skip) (simp add: CR_def)
    also have "\<dots> = Some 15"
      using find_marker_end[of ?buf 15] by simp
    finally show ?thesis by simp
  qed
  have s10: "rx_scan_step ?buf 10 [] = Stop (Scanned 15 [])"
    by (rule rx_scan_step_end[OF fm10]) simp
  have r0: "rx_scan ?buf 0 [] = Some (Scanned 15 [])"
    by (subst rx_scan.simps, simp only: s0 scan_step.case, subst rx_scan.simps)
       (simp only: s10 scan_step.case)
  have fm1: "find_marker ?buf 1 = find_marker ?buf 9"
  proof -
    have "find_marker (''t'' @ ''12300ZZZ'' @ (''t4560'' @ [CR])) (int (length ''t''))
        = find_marker (''t'' @ ''12300ZZZ'' @ (''t4560'' @ [CR]))
            (int (length ''t'') + int (length ''12300ZZZ''))"
      by (rule find_marker_skip) simp
    then show ?thesis by simp
  qed
  have r: "length ([]::ipc list) < RX_QUEUE_SIZE" by (simp add: RX_QUEUE_SIZE_def)
  have "rx_scan_step (''t12300ZZZ'' @ (''t4560'' @ [CR]) @ []) (int (length ''t12300ZZZ'')) []
      = Continue (int (length ''t12300ZZZ'') + int (length (''t4560'' @ [CR]))) ([] @ [IpcFrame ?F])"
    by (rule rx_scan_step_line[OF wire_4560 refl refl r])
  then have s9: "rx_scan_step ?buf 9 [] = Continue 15 [IpcFrame ?F]" by simp
  have s1: "rx_scan_step ?buf 1 [] = Continue 15 [IpcFrame ?F]"
    using rx_scan_step_skip[OF fm1] s9 by simp
  have fm15: "find_marker ?buf 15 = Some 15"
    using find_marker_end[of ?buf 15] by simp
  have s15: "rx_scan_step ?buf 15 [IpcFrame ?F] = Stop (Scanned 15 [IpcFrame ?F])"
    by (rule rx_scan_step_end[OF fm15]) simp
  have r1: "rx_scan ?buf 1 [] = Some (Scanned 15 [IpcFrame ?F])"
    by (subst rx_scan.simps, simp only: s1 scan_step.case, subst rx_scan.simps)
       (simp only: s15 scan_step.case)
  from s0 r0 r1 show ?thesis by (intro conjI)
qed

section \<open>Properties of the driver facade\<close>

lemma init_wait_silent:
  assumes "\<forall>x \<in> set ts. x \<le> deadline" and "t > deadline"
  shows "init_wait (rx_gets [] (ts @ t # rest)) deadline =
           Some (Inl (DriverError ''IO process did not confirm initialization'', t),
                 [IPC_COMMAND_STOP])"
  using assms by (induction ts) simp_all

lemma init_wait_waiting:
  "\<forall>x \<in> set ts. x \<le> deadline \<Longrightarrow> init_wait (rx_gets [] ts) deadline = None"
  by (induction ts) simp_all

lemma io_process_start_failure:
  "init_adapter T c bitrate = Some (Inl e, c') \<Longrightarrow>
   io_process_start T c bitrate = Some (Inl e, stop_adapter T c', [])"
  by (simp add: io_process_start_def)

lemma SLCAN_init_failure:
  assumes "init_adapter T c bitrate = Some (Inl e, c')"
    and "\<forall>x \<in> set ts. x \<le> start + IO_PROCESS_INIT_TIMEOUT"
    and "t > start + IO_PROCESS_INIT_TIMEOUT"
  shows "SLCAN_init T c bitrate start (ts @ t # rest) =
           Some (Inl (DriverError ''IO process did not confirm initialization'', Some t),
                 [IPC_COMMAND_STOP])"
  using io_process_start_failure[OF assms(1)] init_wait_silent[OF assms(2,3)]
  by (simp add: SLCAN_init_def Let_def)

lemma SLCAN_init_failure_waiting:
  assumes "init_adapter T c bitrate = Some (Inl e, c')"
    and "\<forall>x \<in> set clock. x \<le> start + IO_PROCESS_INIT_TIMEOUT"
  shows "SLCAN_init T c bitrate start clock = None"
  using io_process_start_failure[OF assms(1)] init_wait_waiting[OF assms(2)]
  by (simp add: SLCAN_init_def Let_def)

text \<open>
  Claim C8, as the code has it. When the init sequence fails, whatever the error (the
  \<^verbatim>\<open>KeyError\<close> of an unknown bit rate, the ACK timeout, the NACK), the I/O process stops the
  adapter and ends with that error without putting anything on the inbound queue. The
  wait loop of \<^verbatim>\<open>SLCAN.__init__\<close> therefore sees no message. As long as the clock
  readings taken after its waits are not beyond the deadline, which is the initialization
  timeout after the start, it goes on waiting; at the first reading beyond the deadline it
  puts the stop command on the outbound queue and raises the error
  \<^verbatim>\<open>IO process did not confirm initialization\<close>, not the error of the init sequence.
\<close>

theorem init_failure_not_propagated:
  assumes "init_adapter T c bitrate = Some (Inl e, c')"
  shows "io_process_start T c bitrate = Some (Inl e, stop_adapter T c', [])
       \<and> ((\<forall>x \<in> set clock. x \<le> start + IO_PROCESS_INIT_TIMEOUT) \<longrightarrow>
            SLCAN_init T c bitrate start clock = None)
       \<and> ((\<forall>x \<in> set ts. x \<le> start + IO_PROCESS_INIT_TIMEOUT)
            \<and> t > start + IO_PROCESS_INIT_TIMEOUT \<longrightarrow>
            SLCAN_init T c bitrate start (ts @ t # rest) =
              Some (Inl (DriverError ''IO process did not confirm initialization'', Some t),
                    [IPC_COMMAND_STOP])
            \<and> t - start > IO_PROCESS_INIT_TIMEOUT)"
  using io_process_start_failure[OF assms] SLCAN_init_failure_waiting[OF assms]
    SLCAN_init_failure[OF assms]
  by auto

lemma init_adapter_unknown_bitrate:
  "init_adapter (script_transport (\<lambda>_. [ACK])) (fresh_conn []) (Some 12345)
     = Some (Inl (KeyError 12345), fresh_conn [])"
  by (simp add: init_adapter_def speed_code_def)

theorem init_failure_not_propagated_witness:
  "init_adapter (script_transport (\<lambda>_. [ACK])) (fresh_conn []) (Some 12345)
     = Some (Inl (KeyError 12345), fresh_conn [])
   \<and> io_process_start (script_transport (\<lambda>_. [ACK])) (fresh_conn []) (Some 12345)
     = Some (Inl (KeyError 12345), stop_adapter (script_transport (\<lambda>_. [ACK])) (fresh_conn []), [])
   \<and> SLCAN_init (script_transport (\<lambda>_. [ACK])) (fresh_conn []) (Some 12345) 0 [5] = None
   \<and> SLCAN_init (script_transport (\<lambda>_. [ACK])) (fresh_conn []) (Some 12345) 0 [5, 501 / 100] =
       Some (Inl (DriverError ''IO process did not confirm initialization'', Some (501 / 100)),
             [IPC_COMMAND_STOP])"
proof -
  note c2 = conjunct2
  note A = init_failure_not_propagated[OF init_adapter_unknown_bitrate]
  have h1: "\<forall>x \<in> set [5::rat]. x \<le> 0 + IO_PROCESS_INIT_TIMEOUT"
    by (simp add: IO_PROCESS_INIT_TIMEOUT_def)
  have h2: "(\<forall>x \<in> set [5::rat]. x \<le> 0 + IO_PROCESS_INIT_TIMEOUT)
      \<and> (501 / 100 :: rat) > 0 + IO_PROCESS_INIT_TIMEOUT"
    by (simp add: IO_PROCESS_INIT_TIMEOUT_def)
  have a1: "io_process_start (script_transport (\<lambda>_. [ACK])) (fresh_conn []) (Some 12345)
     = Some (Inl (KeyError 12345), stop_adapter (script_transport (\<lambda>_. [ACK])) (fresh_conn []), [])"
    by (rule A[THEN conjunct1])
  have a2: "SLCAN_init (script_transport (\<lambda>_. [ACK])) (fresh_conn []) (Some 12345) 0 [5] = None"
    by (rule A[where clock = "[5]" and start = 0, THEN c2, THEN conjunct1, THEN mp, OF h1])
  have "SLCAN_init (script_transport (\<lambda>_. [ACK])) (fresh_conn []) (Some 12345) 0
          ([5] @ (501 / 100) # []) =
       Some (Inl (DriverError ''IO process did not confirm initialization'', Some (501 / 100)),
             [IPC_COMMAND_STOP])"
    by (rule A[where ts = "[5]" and start = 0 and t = "501 / 100" and rest = "[]",
          THEN c2, THEN c2, THEN mp, OF h2, THEN conjunct1])
  then have a3: "SLCAN_init (script_transport (\<lambda>_. [ACK])) (fresh_conn []) (Some 12345) 0
          [5, 501 / 100] =
       Some (Inl (DriverError ''IO process did not confirm initialization'', Some (501 / 100)),
             [IPC_COMMAND_STOP])"
    by simp
  from init_adapter_unknown_bitrate a1 a2 a3 show ?thesis by (intro conjI)
qed

text \<open>
  With the unknown bit rate 12345 the init sequence raises \<^verbatim>\<open>KeyError\<close>, and what the
  caller of \<^verbatim>\<open>SLCAN.__init__\<close> gets is another error.
\<close>

theorem start_error_counterexample:
  "init_adapter (script_transport (\<lambda>_. [ACK])) (fresh_conn []) (Some 12345)
     = Some (Inl (KeyError 12345), fresh_conn [])
   \<and> SLCAN_init (script_transport (\<lambda>_. [ACK])) (fresh_conn []) (Some 12345) 0 [501 / 100] =
       Some (Inl (DriverError ''IO process did not confirm initialization'', Some (501 / 100)),
             [IPC_COMMAND_STOP])"
proof -
  have "SLCAN_init (script_transport (\<lambda>_. [ACK])) (fresh_conn []) (Some 12345) 0
          ([] @ (501 / 100) # []) =
       Some (Inl (DriverError ''IO process did not confirm initialization'', Some (501 / 100)),
             [IPC_COMMAND_STOP])"
    by (rule SLCAN_init_failure[OF init_adapter_unknown_bitrate])
       (simp_all add: IO_PROCESS_INIT_TIMEOUT_def)
  with init_adapter_unknown_bitrate show ?thesis by simp
qed

text \<open>
  Claim C10, as the code has it. Under Python 3, while the I/O process is alive,
  \<^verbatim>\<open>receive\<close> with the default argument \<^verbatim>\<open>timeout=None\<close> raises \<^verbatim>\<open>TypeError\<close> and leaves
  the inbound queue as it is, whatever the queue holds. Under Python 2, for which the
  module is written as well, \<^verbatim>\<open>max(None, 0.001)\<close> is \<^verbatim>\<open>0.001\<close> and the call does what it
  does with that timeout. A number as the timeout reaches the queue wait, raised to
  \<^verbatim>\<open>0.001\<close> when it is smaller. When the interpreter refuses that timeout, the exception
  of the queue wait leaves \<^verbatim>\<open>receive\<close>, which catches \<^verbatim>\<open>queue.Empty\<close> only, and the queue
  is as it was. When the interpreter accepts it, the call returns \<^verbatim>\<open>None\<close> for an empty
  queue, returns the first frame when the receive hook does not raise, and raises a
  failure that was put on the queue.
\<close>

theorem receive_default_timeout:
  assumes "alive"
  shows "(\<not> py2_compat R \<longrightarrow> receive R rx_hook alive rxq None = (Inl TypeError, rxq))
       \<and> (py2_compat R \<longrightarrow>
            receive R rx_hook alive rxq None
              = receive R rx_hook alive rxq (Some (Number (1 / 1000))))
       \<and> (py_max_timeout R (Some (Number t)) = Inr (Number (max t (1 / 1000))))
       \<and> (py_max_timeout R tmo = Inr w \<and> wait_refused R w = Some e \<longrightarrow>
            receive R rx_hook alive rxq tmo = (Inl e, rxq))
       \<and> (py_max_timeout R tmo = Inr w \<and> wait_refused R w = None \<longrightarrow>
            receive R rx_hook alive [] tmo = (Inr None, []))
       \<and> (py_max_timeout R tmo = Inr w \<and> wait_refused R w = None \<and> rx_hook f = Inr () \<longrightarrow>
            receive R rx_hook alive (IpcFrame f # rest) tmo = (Inr (Some f), rest))
       \<and> (py_max_timeout R tmo = Inr w \<and> wait_refused R w = None \<longrightarrow>
            receive R rx_hook alive (IpcFailure ex # rest) tmo = (Inl ex, rest))"
  using assms
  by (auto simp: receive_def check_alive_def py_max_timeout_def queue_get_def max_def)

lemma py_max_timeout_cpython3:
  "py_max_timeout cpython3 (Some (Number 0)) = Inr (Number (1 / 1000))"
  "py_max_timeout cpython3 (Some (Number (10 ^ 30))) = Inr (Number (10 ^ 30))"
  "py_max_timeout cpython3 (Some PlusInf) = Inr PlusInf"
  "py_max_timeout cpython3 (Some NaN) = Inr NaN"
  by (simp_all add: py_max_timeout_def)

theorem receive_default_timeout_witness:
  "receive cpython3 (\<lambda>f. Inr ()) True
      [IpcFrame \<lparr>frame_id = 1, data = [], extended = False, ts_hardware = None\<rparr>] None
     = (Inl TypeError, [IpcFrame \<lparr>frame_id = 1, data = [], extended = False, ts_hardware = None\<rparr>])
   \<and> receive cpython3 (\<lambda>f. Inr ()) True
      [IpcFrame \<lparr>frame_id = 1, data = [], extended = False, ts_hardware = None\<rparr>] (Some (Number 0))
     = (Inr (Some \<lparr>frame_id = 1, data = [], extended = False, ts_hardware = None\<rparr>), [])
   \<and> receive cpython3 (\<lambda>f. Inr ()) True [] (Some (Number 0)) = (Inr None, [])
   \<and> receive cpython3 (\<lambda>f. Inr ()) True [IpcFailure ValueError] (Some (Number 0))
     = (Inl ValueError, [])
   \<and> receive cpython3 (\<lambda>f. Inr ()) True [] (Some (Number (10 ^ 30))) = (Inl OverflowError, [])
   \<and> receive cpython3 (\<lambda>f. Inr ()) True [] (Some PlusInf) = (Inl OverflowError, [])
   \<and> receive cpython3 (\<lambda>f. Inr ()) True [] (Some NaN) = (Inl ValueError, [])"
proof -
  note c2 = conjunct2
  let ?f = "\<lparr>frame_id = 1, data = [], extended = False, ts_hardware = None\<rparr>"
  let ?h = "\<lambda>f::CANFrame. (Inr () :: exn + unit)"
  note A = receive_default_timeout[OF TrueI, where R = cpython3 and rx_hook = ?h]
  note R = A[THEN c2, THEN c2, THEN c2, THEN conjunct1, THEN mp, OF conjI]
  note E = A[THEN c2, THEN c2, THEN c2, THEN c2, THEN conjunct1, THEN mp, OF conjI]
  note F = A[THEN c2, THEN c2, THEN c2, THEN c2, THEN c2, THEN conjunct1, THEN mp,
      OF conjI, OF _ conjI]
  note X = A[THEN c2, THEN c2, THEN c2, THEN c2, THEN c2, THEN c2, THEN mp, OF conjI]
  have h1: "\<not> py2_compat cpython3" by (simp add: cpython3_def)
  have w0: "wait_refused cpython3 (Number (1 / 1000)) = None" by (simp add: cpython3_def)
  have w1: "wait_refused cpython3 (Number (10 ^ 30)) = Some OverflowError"
    by (simp add: cpython3_def)
  have w2: "wait_refused cpython3 PlusInf = Some OverflowError" by (simp add: cpython3_def)
  have w3: "wait_refused cpython3 NaN = Some ValueError" by (simp add: cpython3_def)
  have a1: "receive cpython3 ?h True [IpcFrame ?f] None = (Inl TypeError, [IpcFrame ?f])"
    by (rule A[THEN conjunct1, THEN mp, OF h1])
  have a2: "receive cpython3 ?h True [IpcFrame ?f] (Some (Number 0)) = (Inr (Some ?f), [])"
    by (rule F[OF py_max_timeout_cpython3(1) w0 refl])
  have a3: "receive cpython3 ?h True [] (Some (Number 0)) = (Inr None, [])"
    by (rule E[OF py_max_timeout_cpython3(1) w0])
  have a4: "receive cpython3 ?h True [IpcFailure ValueError] (Some (Number 0)) = (Inl ValueError, [])"
    by (rule X[OF py_max_timeout_cpython3(1) w0])
  have a5: "receive cpython3 ?h True [] (Some (Number (10 ^ 30))) = (Inl OverflowError, [])"
    by (rule R[OF py_max_timeout_cpython3(2) w1])
  have a6: "receive cpython3 ?h True [] (Some PlusInf) = (Inl OverflowError, [])"
    by (rule R[OF py_max_timeout_cpython3(3) w2])
  have a7: "receive cpython3 ?h True [] (Some NaN) = (Inl ValueError, [])"
    by (rule R[OF py_max_timeout_cpython3(4) w3])
  from a1 a2 a3 a4 a5 a6 a7 show ?thesis by (intro conjI)
qed

text \<open>
  Under an interpreter with \<^verbatim>\<open>py2_compat\<close> whose queue wait accepts the timeout
  \<^verbatim>\<open>0.001\<close>, the call with the default argument does not fail: it returns the frame that
  the queue holds.
\<close>

theorem receive_python2_counterexample:
  "receive \<lparr>py2_compat = True, wait_refused = (\<lambda>t. None)\<rparr> (\<lambda>f. Inr ()) True
      [IpcFrame \<lparr>frame_id = 1, data = [], extended = False, ts_hardware = None\<rparr>] None
     = (Inr (Some \<lparr>frame_id = 1, data = [], extended = False, ts_hardware = None\<rparr>), [])"
  by (simp add: receive_def check_alive_def py_max_timeout_def queue_get_def)

end
